theory Spec2Isabelle
  imports Main
begin

section \<open>JavaScript values\<close>

text \<open>
  The driver (\<^verbatim>\<open>pkgs/node-postgres/src/driver.ts\<close>) is untyped at run time: the
  argument of \<^verbatim>\<open>db.run\<close>, the result of a factory and the \<^verbatim>\<open>client\<close> field of a
  context are arbitrary JavaScript values. The driver inspects them in two ways only, by
  \<^verbatim>\<open>typeof\<close> (lines 263 and 268) and by truthiness (lines 30, 36 and 40), so a value
  is modelled by its kind. Objects and functions carry an identity.
\<close>

datatype jsval =
    Undefined
  | Null
  | Bool bool
  | Num int
  | NaN
  | Str string
  | Obj nat
  | Func nat

text \<open>\<^verbatim>\<open>typeof v\<close>, for the two answers the driver compares with.\<close>

fun typeof :: "jsval \<Rightarrow> string" where
  "typeof Undefined = ''undefined''"
| "typeof Null = ''object''"
| "typeof (Bool b) = ''boolean''"
| "typeof (Num n) = ''number''"
| "typeof NaN = ''number''"
| "typeof (Str s) = ''string''"
| "typeof (Obj n) = ''object''"
| "typeof (Func n) = ''function''"

text \<open>The truthiness test of \<^verbatim>\<open>if (v)\<close>.\<close>

fun truthy :: "jsval \<Rightarrow> bool" where
  "truthy Undefined = False"
| "truthy Null = False"
| "truthy (Bool b) = b"
| "truthy (Num n) = (n \<noteq> 0)"
| "truthy NaN = False"
| "truthy (Str s) = (s \<noteq> [])"
| "truthy (Obj n) = True"
| "truthy (Func n) = True"

text \<open>
  An exception is either an \<^verbatim>\<open>Error\<close> the driver creates itself
  (\<^verbatim>\<open>throw new Error(msg)\<close>, lines 31 and 45) or whatever value code outside the driver
  threw or rejected with. A synchronous throw and a rejected promise are both the left
  summand of an outcome.
\<close>

datatype exn = Error string | Thrown jsval

type_synonym outcome = "exn + jsval"

text \<open>
  The effects of the driver, in the order they happen: the three calls that leave the driver
  (\<^verbatim>\<open>new pg.Pool({connectionString})\<close> at line 264, \<^verbatim>\<open>context.factory()\<close> at line 41,
  \<^verbatim>\<open>client.query(queryTextOrConfig, values)\<close> at line 237) and the one assignment it
  makes (\<^verbatim>\<open>context.client = ...\<close> at line 41, with the address of the context).
\<close>

datatype event =
    NewPool string
  | CallFactory jsval
  | ClientQuery jsval jsval jsval
  | SetClient nat jsval

text \<open>What a call that leaves the driver does: it throws a value or returns one.\<close>

datatype completion = Throws jsval | Returns jsval

fun outcome_of :: "completion \<Rightarrow> outcome" where
  "outcome_of (Throws x) = Inl (Thrown x)"
| "outcome_of (Returns v) = Inr v"

section \<open>The context record\<close>

text \<open>
  \<^verbatim>\<open>interface DrizzleContext { client?: NodePgClient; factory?: () => NodePgClient }\<close>
  (lines 21-24). A field is absent (\<open>None\<close>) or holds a value; reading an absent field
  gives \<^verbatim>\<open>undefined\<close>.
\<close>

record DrizzleContext =
  client :: "jsval option"
  factory :: "jsval option"

definition read_field :: "jsval option \<Rightarrow> jsval" where
  "read_field f = (case f of None \<Rightarrow> Undefined | Some v \<Rightarrow> v)"

section \<open>The outside\<close>

text \<open>
  The wrapped client library, the user's factories and the JavaScript run time are opaque:
  \<^item> \<open>pg_Pool h s\<close> is the identity of the object that \<^verbatim>\<open>new pg.Pool({connectionString: s})\<close>
    creates (a \<^verbatim>\<open>new\<close> expression yields an object; the constructor is taken to return,
    it only records its configuration and opens no connection);
  \<^item> \<open>invoke h f\<close> is how the call of the value \<open>f\<close> with no argument ends: the value
    it returns or the value it throws;
  \<^item> \<open>query_method h c q vs\<close> is what evaluating \<^verbatim>\<open>c.query(q, vs)\<close> does;
  \<^item> \<open>factory_edits h f a H\<close> is what the body of \<open>f\<close> makes of the heap \<open>H\<close> of context
    objects when it is called as a method of the context at address \<open>a\<close>: line 41 is the
    method call \<^verbatim>\<open>context.factory()\<close>, so inside the factory \<^verbatim>\<open>this\<close> is the context, and the
    factory may assign to its fields, delete them, and keep the reference;
  \<^item> \<open>outside_edits h k H\<close> is what the code outside the driver that runs between two calls
    of the driver (the rest of a client's \<^verbatim>\<open>query\<close> method, the code of a callback between
    two queries; \<open>k\<close> names the piece of code) makes of the heap \<open>H\<close> of context objects,
    through the references to contexts that factories have kept.
  Each may depend on the whole history \<open>h\<close> of effects so far, so a factory may fail once and
  succeed later, and a client may answer differently each time. Every theorem below holds
  for all such behaviours; a theorem that needs the outside to leave a context alone says
  so, and means the object left as it is in every respect (its two fields are all that is
  modelled of it). Code outside the driver does not call back into the driver while the
  driver is calling it.
\<close>

record env =
  pg_Pool :: "event list \<Rightarrow> string \<Rightarrow> nat"
  invoke :: "event list \<Rightarrow> jsval \<Rightarrow> completion"
  query_method :: "event list \<Rightarrow> jsval \<Rightarrow> jsval \<Rightarrow> jsval \<Rightarrow> completion"
  factory_edits :: "event list \<Rightarrow> jsval \<Rightarrow> nat \<Rightarrow> (nat \<Rightarrow> DrizzleContext) \<Rightarrow> nat \<Rightarrow> DrizzleContext"
  outside_edits :: "event list \<Rightarrow> nat \<Rightarrow> (nat \<Rightarrow> DrizzleContext) \<Rightarrow> nat \<Rightarrow> DrizzleContext"

section \<open>The state\<close>

text \<open>
  Context objects are mutable and reached through a reference, so they live in a heap:
  \<open>heap\<close> maps an address to the object there and \<open>next_addr\<close> is the first address not
  yet allocated. \<open>store\<close> is the store of \<^verbatim>\<open>asyncLocalStorage\<close> (line 26) in the
  asynchronous context that is executing: the address of a context, or \<open>None\<close> outside
  every \<^verbatim>\<open>run\<close>. \<open>trace\<close> is the history of effects. \<open>exposed\<close> is the set of the
  addresses of the contexts that have been handed to a factory as \<^verbatim>\<open>this\<close>: these, and no
  others, are within reach of code outside the driver.
\<close>

record state =
  heap :: "nat \<Rightarrow> DrizzleContext"
  next_addr :: nat
  store :: "nat option"
  trace :: "event list"
  exposed :: "nat set"

definition emit :: "event \<Rightarrow> state \<Rightarrow> state" where
  "emit e st = st\<lparr>trace := trace st @ [e]\<rparr>"

definition init :: state where
  "init = \<lparr>heap = (\<lambda>a. \<lparr>client = None, factory = None\<rparr>), next_addr = 0,
            store = None, trace = [], exposed = {}\<rparr>"

text \<open>
  The piece \<open>k\<close> of code outside the driver runs: it can have changed the exposed
  contexts, and no other.
\<close>

definition outside :: "env \<Rightarrow> nat \<Rightarrow> state \<Rightarrow> state" where
  "outside E k st =
     st\<lparr>heap := (\<lambda>b. if b \<in> exposed st then outside_edits E (trace st) k (heap st) b
                     else heap st b)\<rparr>"

section \<open>AsyncLocalStorage\<close>

text \<open>
  Modelled from the spec: \<^verbatim>\<open>AsyncLocalStorage\<close> of \<^verbatim>\<open>node:async_hooks\<close> (the
  Scoped Context Store of section 4.1) is not part of the sources. \<open>current()\<close> "returns
  the active record for the calling execution context, or a distinguished no-scope result";
  \<open>establish(record, body)\<close> runs \<open>body\<close> with \<open>record\<close> as the value of \<open>current()\<close>
  and "returns body's result or propagates its failure unchanged"; the record "is not
  visible once run settles".
\<close>

definition als_getStore :: "state \<Rightarrow> nat option" where
  "als_getStore st = store st"

definition als_enter :: "nat \<Rightarrow> state \<Rightarrow> state" where
  "als_enter a st = st\<lparr>store := Some a\<rparr>"

definition als_run :: "nat \<Rightarrow> (state \<Rightarrow> outcome \<times> state) \<Rightarrow> state \<Rightarrow> outcome \<times> state" where
  "als_run a callback st =
     (case callback (als_enter a st) of (r, st') \<Rightarrow> (r, st'\<lparr>store := store st\<rparr>))"

section \<open>The driver\<close>

definition ContextMissing :: exn where
  "ContextMissing =
     Error ''No database context found. Make sure to call db.run() to establish a request context.''"

definition InvariantViolation :: exn where
  "InvariantViolation = Error ''No client or factory found in context. This should not happen.''"

text \<open>
  The heap after the body of the factory \<open>f\<close> has run with the context at \<open>a\<close> as
  \<^verbatim>\<open>this\<close>: the body can have changed that context and the contexts exposed before, and
  no other.
\<close>

definition factory_heap :: "env \<Rightarrow> jsval \<Rightarrow> nat \<Rightarrow> state \<Rightarrow> nat \<Rightarrow> DrizzleContext" where
  "factory_heap E f a st =
     (\<lambda>b. if b = a \<or> b \<in> exposed st then factory_edits E (trace st) f a (heap st) b
          else heap st b)"

text \<open>
  \<^verbatim>\<open>context.factory()\<close> with \<open>context\<close> at address \<open>a\<close> and \<open>f\<close> the value of its
  \<^verbatim>\<open>factory\<close> field: the call leaves the driver with the context as receiver, and is
  recorded.
\<close>

definition call_factory :: "env \<Rightarrow> nat \<Rightarrow> jsval \<Rightarrow> state \<Rightarrow> outcome \<times> state" where
  "call_factory E a f st =
     (outcome_of (invoke E (trace st) f),
      emit (CallFactory f) (st\<lparr>heap := factory_heap E f a st, exposed := insert a (exposed st)\<rparr>))"

text \<open>\<^verbatim>\<open>context.client = v\<close> on the context at address \<open>a\<close>.\<close>

definition set_client :: "nat \<Rightarrow> jsval \<Rightarrow> state \<Rightarrow> state" where
  "set_client a v st =
     emit (SetClient a v) (st\<lparr>heap := (heap st)(a := (heap st a)\<lparr>client := Some v\<rparr>)\<rparr>)"

text \<open>\<^verbatim>\<open>getClientFromContext\<close>, lines 28-48.\<close>

definition getClientFromContext :: "env \<Rightarrow> state \<Rightarrow> outcome \<times> state" where
  "getClientFromContext E st =
     (case als_getStore st of
        None \<Rightarrow> (Inl ContextMissing, st)
      | Some a \<Rightarrow>
          if truthy (read_field (client (heap st a))) then
            (Inr (read_field (client (heap st a))), st)
          else if truthy (read_field (factory (heap st a))) then
            (case call_factory E a (read_field (factory (heap st a))) st of
               (Inl e, st1) \<Rightarrow> (Inl e, st1)
             | (Inr v, st1) \<Rightarrow>
                 (Inr (read_field (client (heap (set_client a v st1) a))), set_client a v st1))
          else (Inl InvariantViolation, st))"

text \<open>\<^verbatim>\<open>client.query(queryTextOrConfig, values)\<close>, line 237.\<close>

definition client_query :: "env \<Rightarrow> jsval \<Rightarrow> jsval \<Rightarrow> jsval \<Rightarrow> state \<Rightarrow> outcome \<times> state" where
  "client_query E c q vs st =
     (outcome_of (query_method E (trace st) c q vs), emit (ClientQuery c q vs) st)"

text \<open>\<^verbatim>\<open>proxyClient.query\<close>, lines 234-239.\<close>

definition proxy_query :: "env \<Rightarrow> jsval \<Rightarrow> jsval \<Rightarrow> state \<Rightarrow> outcome \<times> state" where
  "proxy_query E queryTextOrConfig values st =
     (case getClientFromContext E st of
        (Inl e, st1) \<Rightarrow> (Inl e, st1)
      | (Inr c, st1) \<Rightarrow> client_query E c queryTextOrConfig values st1)"

text \<open>Allocation of a context object literal (\<^verbatim>\<open>{ client: ... }\<close>, \<^verbatim>\<open>{ factory: ... }\<close>).\<close>

definition alloc :: "DrizzleContext \<Rightarrow> state \<Rightarrow> nat \<times> state" where
  "alloc ctx st =
     (next_addr st, st\<lparr>heap := (heap st)(next_addr st := ctx), next_addr := Suc (next_addr st)\<rparr>)"

text \<open>\<^verbatim>\<open>new pg.Pool({ connectionString: s })\<close>, lines 264-266.\<close>

definition new_Pool :: "env \<Rightarrow> string \<Rightarrow> state \<Rightarrow> jsval \<times> state" where
  "new_Pool E s st = (Obj (pg_Pool E (trace st) s), emit (NewPool s) st)"

text \<open>
  The normalisation of \<^verbatim>\<open>db.run\<close>, lines 262-272: the branches in the order of the source,
  \<^verbatim>\<open>typeof clientOrFactory === 'string'\<close>, then \<^verbatim>\<open>=== 'function'\<close>, then the rest.
  The two tests are the patterns \<open>Str s\<close> and \<open>Func f\<close> (lemma \<open>typeof_tests\<close>).
\<close>

fun run_context :: "env \<Rightarrow> jsval \<Rightarrow> state \<Rightarrow> nat \<times> state" where
  "run_context E (Str s) st =
     (case new_Pool E s st of (instance, st1) \<Rightarrow>
        alloc \<lparr>client = Some instance, factory = None\<rparr> st1)"
| "run_context E (Func f) st = alloc \<lparr>client = None, factory = Some (Func f)\<rparr> st"
| "run_context E clientOrFactory st = alloc \<lparr>client = Some clientOrFactory, factory = None\<rparr> st"

text \<open>\<^verbatim>\<open>db.run\<close>, lines 258-275.\<close>

definition run :: "env \<Rightarrow> jsval \<Rightarrow> (state \<Rightarrow> outcome \<times> state) \<Rightarrow> state \<Rightarrow> outcome \<times> state" where
  "run E clientOrFactory callback st =
     (case run_context E clientOrFactory st of (context, st1) \<Rightarrow> als_run context callback st1)"

text \<open>
  The state in which the callback of \<^verbatim>\<open>db.run\<close> starts: the context has been built and
  is the store. (\<open>run\<close> passes exactly this state to the callback, see below.)
\<close>

definition scope_entry :: "env \<Rightarrow> jsval \<Rightarrow> state \<Rightarrow> state" where
  "scope_entry E clientOrFactory st =
     (case run_context E clientOrFactory st of (context, st1) \<Rightarrow> als_enter context st1)"

section \<open>Callbacks that issue queries\<close>

text \<open>
  A sequence of queries issued one after the other through the proxy, each with its query
  text and its values, whatever each of them answers; and the callback that issues them and
  produces the outcome of the last one. After each query the code outside the driver runs
  (the client's \<^verbatim>\<open>query\<close> method, the callback up to its next query), a different piece
  each time.
\<close>

fun queries :: "env \<Rightarrow> (jsval \<times> jsval) list \<Rightarrow> state \<Rightarrow> outcome list \<times> state" where
  "queries E [] st = ([], st)"
| "queries E ((q, vs) # qs) st =
     (case proxy_query E q vs st of (r, st1) \<Rightarrow>
        (case queries E qs (outside E (length qs) st1) of (rs, st2) \<Rightarrow> (r # rs, st2)))"

definition query_callback :: "env \<Rightarrow> (jsval \<times> jsval) list \<Rightarrow> state \<Rightarrow> outcome \<times> state" where
  "query_callback E qs st =
     (case queries E qs st of (rs, st') \<Rightarrow> (if rs = [] then Inr Undefined else last rs, st'))"

text \<open>
  The outcomes of a sequence of queries that all go to the client \<open>c\<close>, from the history
  \<open>h\<close> on: each one is what \<^verbatim>\<open>c.query(q, vs)\<close> does at its moment.
\<close>

fun delegated :: "env \<Rightarrow> jsval \<Rightarrow> event list \<Rightarrow> (jsval \<times> jsval) list \<Rightarrow> outcome list" where
  "delegated E c h [] = []"
| "delegated E c h ((q, vs) # qs) =
     outcome_of (query_method E h c q vs) # delegated E c (h @ [ClientQuery c q vs]) qs"

fun query_event :: "jsval \<Rightarrow> jsval \<times> jsval \<Rightarrow> event" where
  "query_event c (q, vs) = ClientQuery c q vs"

fun is_CallFactory :: "event \<Rightarrow> bool" where
  "is_CallFactory (CallFactory f) = True"
| "is_CallFactory e = False"

fun is_SetClient :: "event \<Rightarrow> bool" where
  "is_SetClient (SetClient a v) = True"
| "is_SetClient e = False"

section \<open>The equivalent of a connection string, in the words of the specification\<close>

text \<open>
  "Passing a connection-descriptor string to run is behaviorally equivalent to passing an
  already-constructed client built from that same descriptor": the caller constructs the
  pool from the string and passes the pool.
\<close>

definition run_with_constructed_client ::
  "env \<Rightarrow> string \<Rightarrow> (state \<Rightarrow> outcome \<times> state) \<Rightarrow> state \<Rightarrow> outcome \<times> state" where
  "run_with_constructed_client E s callback st =
     (case new_Pool E s st of (c, st1) \<Rightarrow> run E c callback st1)"

section \<open>Interleaved invocations\<close>

text \<open>
  Modelled from the spec: the scheduling of section 5 and the chain-local store of section
  4.1, which \<^verbatim>\<open>AsyncLocalStorage\<close> and the event loop provide and the sources only use.
  "Single-threaded, cooperative, event-driven - concurrency arises from interleaved
  asynchronous executions": the callback of each invocation of \<^verbatim>\<open>run\<close> executes in an
  asynchronous chain of its own, the synchronous pieces of all chains are executed one at a
  time in any order, and "concurrent sibling chains never observe each other's records", that
  is, \<^verbatim>\<open>getStore\<close> in a chain answers with the store of that chain. The heap of context
  objects, the allocation of addresses, the outside world and what it has within reach are
  shared by all chains.

  The log tags every effect with the chain that caused it.
\<close>

type_synonym chain = nat

record cstate =
  c_heap :: "nat \<Rightarrow> DrizzleContext"
  c_next_addr :: nat
  c_stores :: "chain \<Rightarrow> nat option"
  c_log :: "(chain \<times> event) list"
  c_exposed :: "nat set"

definition c_init :: cstate where
  "c_init = \<lparr>c_heap = (\<lambda>a. \<lparr>client = None, factory = None\<rparr>), c_next_addr = 0,
              c_stores = (\<lambda>c. None), c_log = [], c_exposed = {}\<rparr>"

text \<open>The state as the code executing in chain \<open>c\<close> has it.\<close>

definition view :: "chain \<Rightarrow> cstate \<Rightarrow> state" where
  "view c cs = \<lparr>heap = c_heap cs, next_addr = c_next_addr cs, store = c_stores cs c,
                trace = map snd (c_log cs), exposed = c_exposed cs\<rparr>"

text \<open>
  The state of all chains after a piece of chain \<open>c\<close> has taken \<open>view c cs\<close> to \<open>st'\<close>: the
  new effects are logged for \<open>c\<close>.
\<close>

definition resume :: "chain \<Rightarrow> cstate \<Rightarrow> state \<Rightarrow> cstate" where
  "resume c cs st' =
     \<lparr>c_heap = heap st', c_next_addr = next_addr st',
      c_stores = (c_stores cs)(c := store st'),
      c_log = c_log cs @ map (Pair c) (drop (length (c_log cs)) (trace st')),
      c_exposed = exposed st'\<rparr>"

text \<open>
  The pieces: \<open>Start c i\<close> is the synchronous part of \<^verbatim>\<open>db.run(i, callback)\<close> (lines 262-274)
  that builds the context and enters the scope, the callback then being chain \<open>c\<close>;
  \<open>Issue c q vs\<close> is a query through the proxy from chain \<open>c\<close>; \<open>Outside k\<close> is the piece
  \<open>k\<close> of code outside the driver, of whatever chain.
\<close>

datatype action = Start chain jsval | Issue chain jsval jsval | Outside nat

fun step :: "env \<Rightarrow> action \<Rightarrow> cstate \<Rightarrow> cstate" where
  "step E (Start c i) cs = resume c cs (scope_entry E i (view c cs))"
| "step E (Issue c q vs) cs = resume c cs (snd (proxy_query E q vs (view c cs)))"
| "step E (Outside k) cs = cs\<lparr>c_heap := heap (outside E k (view 0 cs))\<rparr>"

definition interleave :: "env \<Rightarrow> action list \<Rightarrow> cstate" where
  "interleave E acts = fold (step E) acts c_init"

fun started :: "action list \<Rightarrow> chain list" where
  "started [] = []"
| "started (Start c i # acts) = c # started acts"
| "started (Issue c q vs # acts) = started acts"
| "started (Outside k # acts) = started acts"

text \<open>
  What belongs to chain \<open>c\<close>: the pools its own \<^verbatim>\<open>run\<close> constructed (each is the object the
  constructor gave at that moment of the log) and the values it assigned to the \<^verbatim>\<open>client\<close>
  field itself.
\<close>

fun pools_from :: "env \<Rightarrow> chain \<Rightarrow> (chain \<times> event) list \<Rightarrow> (chain \<times> event) list \<Rightarrow> jsval list" where
  "pools_from E c before [] = []"
| "pools_from E c before ((d, NewPool s) # rest) =
     (if d = c then [Obj (pg_Pool E (map snd before) s)] else []) @
     pools_from E c (before @ [(d, NewPool s)]) rest"
| "pools_from E c before ((d, e) # rest) = pools_from E c (before @ [(d, e)]) rest"

fun memoized :: "chain \<Rightarrow> (chain \<times> event) list \<Rightarrow> jsval list" where
  "memoized c [] = []"
| "memoized c ((d, SetClient a v) # rest) = (if d = c then [v] else []) @ memoized c rest"
| "memoized c ((d, e) # rest) = memoized c rest"

text \<open>
  An effect of chain \<open>c\<close>, whose \<^verbatim>\<open>run\<close> was given \<open>i\<close> and whose scope is the record at
  \<open>scope\<close>, uses only what is its own, given the log \<open>before\<close> it:
  \<^item> a pool is constructed from \<open>i\<close>;
  \<^item> the factory invoked is \<open>i\<close>;
  \<^item> an assignment is to the record of its scope, of the value that the invocation of \<open>i\<close>
    just before returned;
  \<^item> the client queried is \<open>i\<close> itself (when \<open>i\<close> is neither a string nor a function), or a pool
    constructed by \<open>c\<close>, or a value assigned by \<open>c\<close>.
\<close>

fun own_event ::
  "env \<Rightarrow> jsval \<Rightarrow> nat option \<Rightarrow> chain \<Rightarrow> (chain \<times> event) list \<Rightarrow> event \<Rightarrow> bool" where
  "own_event E i scope c before (NewPool s) = (i = Str s)"
| "own_event E i scope c before (CallFactory f) = (f = i \<and> typeof i = ''function'')"
| "own_event E i scope c before (SetClient a v) =
     (scope = Some a \<and> before \<noteq> [] \<and> last before = (c, CallFactory i) \<and>
      invoke E (map snd (butlast before)) i = Returns v)"
| "own_event E i scope c before (ClientQuery x q vs) =
     ((typeof i \<noteq> ''string'' \<and> typeof i \<noteq> ''function'' \<and> x = i) \<or>
      x \<in> set (pools_from E c [] before) \<or> x \<in> set (memoized c before))"

text \<open>Every effect of chain \<open>c\<close> in \<open>rest\<close>, which comes after \<open>before\<close>, is its own.\<close>

fun owned_from ::
  "env \<Rightarrow> jsval \<Rightarrow> nat option \<Rightarrow> chain \<Rightarrow> (chain \<times> event) list \<Rightarrow> (chain \<times> event) list \<Rightarrow> bool" where
  "owned_from E i scope c before [] = True"
| "owned_from E i scope c before ((d, e) # rest) =
     ((if d = c then own_event E i scope c before e else True) \<and>
      owned_from E i scope c (before @ [(d, e)]) rest)"

text \<open>
  The record of the scope of chain \<open>c\<close> holds what its \<^verbatim>\<open>run\<close> was given, or what \<open>c\<close>
  itself made of it.
\<close>

fun record_of_input :: "env \<Rightarrow> chain \<Rightarrow> jsval \<Rightarrow> (chain \<times> event) list \<Rightarrow> DrizzleContext \<Rightarrow> bool" where
  "record_of_input E c (Str s) log R =
     (factory R = None \<and> (case client R of None \<Rightarrow> False
                           | Some x \<Rightarrow> truthy x \<and> x \<in> set (pools_from E c [] log)))"
| "record_of_input E c (Func f) log R =
     (factory R = Some (Func f) \<and> (case client R of None \<Rightarrow> True
                                    | Some x \<Rightarrow> x \<in> set (memoized c log)))"
| "record_of_input E c i log R = (factory R = None \<and> client R = Some i)"

definition scopes_ok :: "env \<Rightarrow> action list \<Rightarrow> cstate \<Rightarrow> bool" where
  "scopes_ok E acts cs =
     ((\<forall>c. c \<notin> set (started acts) \<longrightarrow> c_stores cs c = None \<and> c \<notin> fst ` set (c_log cs))
      \<and> (\<forall>c i. Start c i \<in> set acts \<longrightarrow>
            (\<exists>a. a < c_next_addr cs \<and> c_stores cs c = Some a
                 \<and> record_of_input E c i (c_log cs) (c_heap cs a)
                 \<and> owned_from E i (Some a) c [] (c_log cs)))
      \<and> (\<forall>c d a. c_stores cs c = Some a \<longrightarrow> c_stores cs d = Some a \<longrightarrow> c = d))"

section \<open>Concrete surroundings\<close>

text \<open>
  Behaviours of the outside, to run the driver on. In the first three the factories leave
  the context alone: one where every factory returns the client object 7 and every query
  returns rows; one where a factory throws the first time it is called and returns the client
  afterwards; one where every factory returns \<^verbatim>\<open>undefined\<close> (and a query on it throws, as the
  run time does).
\<close>

definition env_ok :: env where
  "env_ok = \<lparr>pg_Pool = (\<lambda>h s. length h),
             invoke = (\<lambda>h f. Returns (Obj 7)),
             query_method = (\<lambda>h c q vs. Returns (Str ''rows'')),
             factory_edits = (\<lambda>h f a H. H),
             outside_edits = (\<lambda>h k H. H)\<rparr>"

definition env_flaky :: env where
  "env_flaky = \<lparr>pg_Pool = (\<lambda>h s. length h),
                invoke = (\<lambda>h f. if CallFactory f \<in> set h then Returns (Obj 7)
                                 else Throws (Str ''connect failed'')),
                query_method = (\<lambda>h c q vs. Returns (Str ''rows'')),
                factory_edits = (\<lambda>h f a H. H),
                outside_edits = (\<lambda>h k H. H)\<rparr>"

definition env_undefined :: env where
  "env_undefined = \<lparr>pg_Pool = (\<lambda>h s. length h),
                    invoke = (\<lambda>h f. Returns Undefined),
                    query_method = (\<lambda>h c q vs. if truthy c then Returns (Str ''rows'')
                                                 else Throws (Str ''TypeError'')),
                    factory_edits = (\<lambda>h f a H. H),
                    outside_edits = (\<lambda>h k H. H)\<rparr>"

text \<open>
  Factories that use \<^verbatim>\<open>this\<close>:
  \<^verbatim>\<open>function () { delete this.factory; throw 'connect failed' }\<close>,
  \<^verbatim>\<open>function () { delete this.factory; return undefined }\<close>,
  \<^verbatim>\<open>function () { this.factory = undefined; return pool }\<close> with the client object 7 for
  \<open>pool\<close>, and, for the function 4 only, \<^verbatim>\<open>function () { this.factory = g; throw 1 }\<close> with
  the function 5 for \<open>g\<close>, which returns the client object 7.
\<close>

definition env_delete_throw :: env where
  "env_delete_throw = \<lparr>pg_Pool = (\<lambda>h s. length h),
                       invoke = (\<lambda>h f. Throws (Str ''connect failed'')),
                       query_method = (\<lambda>h c q vs. Returns (Str ''rows'')),
                       factory_edits = (\<lambda>h f a H. H(a := (H a)\<lparr>factory := None\<rparr>)),
                       outside_edits = (\<lambda>h k H. H)\<rparr>"


definition env_unset_return :: env where
  "env_unset_return = \<lparr>pg_Pool = (\<lambda>h s. length h),
                       invoke = (\<lambda>h f. Returns (Obj 7)),
                       query_method = (\<lambda>h c q vs. Returns (Str ''rows'')),
                       factory_edits = (\<lambda>h f a H. H(a := (H a)\<lparr>factory := Some Undefined\<rparr>)),
                       outside_edits = (\<lambda>h k H. H)\<rparr>"

definition env_swap :: env where
  "env_swap = \<lparr>pg_Pool = (\<lambda>h s. length h),
               invoke = (\<lambda>h f. if f = Func 4 then Throws (Num 1) else Returns (Obj 7)),
               query_method = (\<lambda>h c q vs. Returns (Str ''rows'')),
               factory_edits = (\<lambda>h f a H. if f = Func 4
                                  then H(a := (H a)\<lparr>factory := Some (Func 5)\<rparr>) else H),
               outside_edits = (\<lambda>h k H. H)\<rparr>"

text \<open>
  A factory that keeps the context it is given and leaves it as it is, with code outside the
  driver that later removes the client from the contexts kept:
  \<^verbatim>\<open>function () { kept = this; return pool }\<close> and, after a query,
  \<^verbatim>\<open>delete kept.client\<close>.
\<close>

definition env_leak :: env where
  "env_leak = \<lparr>pg_Pool = (\<lambda>h s. length h),
               invoke = (\<lambda>h f. Returns (Obj 7)),
               query_method = (\<lambda>h c q vs. Returns (Str ''rows'')),
               factory_edits = (\<lambda>h f a H. H),
               outside_edits = (\<lambda>h k H b. (H b)\<lparr>client := None\<rparr>)\<rparr>"

definition select1 :: jsval where
  "select1 = Str ''select 1''"

text \<open>
  Two requests at the same time: chain 1 was given the client object 11, chain 2 a factory,
  and their queries alternate.
\<close>

definition two_requests :: "action list" where
  "two_requests =
     [Start 1 (Obj 11), Start 2 (Func 5), Issue 1 select1 Undefined, Issue 2 select1 Undefined,
      Issue 1 select1 Null, Issue 2 select1 Null]"

text \<open>
  Two requests at the same time, each with a factory of its own; chain 1 asks twice.
\<close>

definition two_factories :: "action list" where
  "two_factories =
     [Start 1 (Func 4), Start 2 (Func 5), Issue 1 select1 Undefined, Issue 1 select1 Null]"

section \<open>Unfolding the definitions\<close>

lemmas driver_defs = getClientFromContext_def als_getStore_def call_factory_def set_client_def
  emit_def client_query_def proxy_query_def

lemmas run_defs = run_def als_run_def als_enter_def alloc_def new_Pool_def scope_entry_def
  query_callback_def read_field_def init_def select1_def

lemma typeof_tests:
  "(typeof v = ''string'') = (\<exists>s. v = Str s)"
  "(typeof v = ''function'') = (\<exists>f. v = Func f)"
  by (cases v; simp)+

text \<open>
  \<open>run\<close> builds the context, makes it the store, runs the callback and puts the previous
  store back.
\<close>

lemma run_unfold:
  "run E i callback st =
     (case callback (scope_entry E i st) of (r, st') \<Rightarrow> (r, st'\<lparr>store := store st\<rparr>))"
proof -
  have "store (snd (run_context E i st)) = store st"
    by (cases i) (simp_all add: alloc_def new_Pool_def emit_def)
  then show ?thesis
    by (cases "run_context E i st") (simp add: run_def als_run_def scope_entry_def als_enter_def)
qed

lemma scope_entry_Str:
  "scope_entry E (Str s) st =
     st\<lparr>heap := (heap st)(next_addr st :=
             \<lparr>client = Some (Obj (pg_Pool E (trace st) s)), factory = None\<rparr>),
        next_addr := Suc (next_addr st), store := Some (next_addr st),
        trace := trace st @ [NewPool s]\<rparr>"
  by (simp add: scope_entry_def new_Pool_def alloc_def emit_def als_enter_def)

lemma scope_entry_Func:
  "scope_entry E (Func f) st =
     st\<lparr>heap := (heap st)(next_addr st := \<lparr>client = None, factory = Some (Func f)\<rparr>),
        next_addr := Suc (next_addr st), store := Some (next_addr st)\<rparr>"
  by (simp add: scope_entry_def alloc_def als_enter_def)

lemma scope_entry_other:
  "typeof i \<noteq> ''string'' \<Longrightarrow> typeof i \<noteq> ''function'' \<Longrightarrow>
   scope_entry E i st =
     st\<lparr>heap := (heap st)(next_addr st := \<lparr>client = Some i, factory = None\<rparr>),
        next_addr := Suc (next_addr st), store := Some (next_addr st)\<rparr>"
  by (cases i) (simp_all add: scope_entry_def alloc_def als_enter_def)

lemma scope_entry_record:
  "als_getStore (scope_entry E i st) = Some (next_addr st)
   \<and> heap (scope_entry E i st) (next_addr st) =
       (case i of
          Str s \<Rightarrow> \<lparr>client = Some (Obj (pg_Pool E (trace st) s)), factory = None\<rparr>
        | Func f \<Rightarrow> \<lparr>client = None, factory = Some (Func f)\<rparr>
        | _ \<Rightarrow> \<lparr>client = Some i, factory = None\<rparr>)"
  by (cases i)
    (simp_all add: scope_entry_def new_Pool_def alloc_def emit_def als_enter_def als_getStore_def)

section \<open>The four exits of \<^verbatim>\<open>getClientFromContext\<close>\<close>

lemma factory_heap_untouched:
  "factory_edits E (trace st) f a (heap st) a = heap st a \<Longrightarrow> factory_heap E f a st a = heap st a"
  by (simp add: factory_heap_def)

lemma factory_heap_quiet:
  "\<forall>h f a H b. factory_edits E h f a H b = H b \<Longrightarrow> factory_heap E f a st = heap st"
  by (rule ext) (simp add: factory_heap_def)

lemma outside_simps:
  "store (outside E k st) = store st" "trace (outside E k st) = trace st"
  "next_addr (outside E k st) = next_addr st" "exposed (outside E k st) = exposed st"
  "als_getStore (outside E k st) = als_getStore st"
  by (simp_all add: outside_def als_getStore_def)

lemma outside_record:
  "outside_edits E (trace st) k (heap st) a = heap st a \<Longrightarrow> heap (outside E k st) a = heap st a"
  by (simp add: outside_def)

lemma outside_quiet:
  assumes "\<forall>h k H b. outside_edits E h k H b = H b"
  shows "outside E k st = st"
proof -
  have "(\<lambda>b. if b \<in> exposed st then outside_edits E (trace st) k (heap st) b else heap st b)
        = heap st"
    using assms by (intro ext) simp
  then show ?thesis by (simp add: outside_def)
qed

lemma getClient_cached:
  "als_getStore st = Some a \<Longrightarrow> truthy (read_field (client (heap st a))) \<Longrightarrow>
   getClientFromContext E st = (Inr (read_field (client (heap st a))), st)"
  by (simp add: getClientFromContext_def)

lemma getClient_factory_returns:
  "als_getStore st = Some a \<Longrightarrow> \<not> truthy (read_field (client (heap st a))) \<Longrightarrow>
   truthy (read_field (factory (heap st a))) \<Longrightarrow>
   invoke E (trace st) (read_field (factory (heap st a))) = Returns v \<Longrightarrow>
   getClientFromContext E st =
     (Inr v,
      st\<lparr>heap := (factory_heap E (read_field (factory (heap st a))) a st)
                  (a := (factory_heap E (read_field (factory (heap st a))) a st a)\<lparr>client := Some v\<rparr>),
         trace := trace st @ [CallFactory (read_field (factory (heap st a))), SetClient a v],
         exposed := insert a (exposed st)\<rparr>)"
  by (simp add: getClientFromContext_def call_factory_def set_client_def emit_def read_field_def)

lemma getClient_factory_throws:
  "als_getStore st = Some a \<Longrightarrow> \<not> truthy (read_field (client (heap st a))) \<Longrightarrow>
   truthy (read_field (factory (heap st a))) \<Longrightarrow>
   invoke E (trace st) (read_field (factory (heap st a))) = Throws x \<Longrightarrow>
   getClientFromContext E st =
     (Inl (Thrown x),
      st\<lparr>heap := factory_heap E (read_field (factory (heap st a))) a st,
         trace := trace st @ [CallFactory (read_field (factory (heap st a)))],
         exposed := insert a (exposed st)\<rparr>)"
  by (simp add: getClientFromContext_def call_factory_def emit_def)

lemma getClient_neither:
  "als_getStore st = Some a \<Longrightarrow> \<not> truthy (read_field (client (heap st a))) \<Longrightarrow>
   \<not> truthy (read_field (factory (heap st a))) \<Longrightarrow>
   getClientFromContext E st = (Inl InvariantViolation, st)"
  by (simp add: getClientFromContext_def)

lemma proxy_query_cached:
  "als_getStore st = Some a \<Longrightarrow> truthy (read_field (client (heap st a))) \<Longrightarrow>
   proxy_query E q vs st =
     (outcome_of (query_method E (trace st) (read_field (client (heap st a))) q vs),
      st\<lparr>trace := trace st @ [ClientQuery (read_field (client (heap st a))) q vs]\<rparr>)"
  by (simp add: proxy_query_def getClient_cached client_query_def emit_def)

lemma proxy_query_factory_returns:
  assumes "als_getStore st = Some a" "\<not> truthy (read_field (client (heap st a)))"
    "truthy (read_field (factory (heap st a)))"
    "invoke E (trace st) (read_field (factory (heap st a))) = Returns v"
  shows "proxy_query E q vs st =
     (outcome_of (query_method E
         (trace st @ [CallFactory (read_field (factory (heap st a))), SetClient a v]) v q vs),
      st\<lparr>heap := (factory_heap E (read_field (factory (heap st a))) a st)
                  (a := (factory_heap E (read_field (factory (heap st a))) a st a)\<lparr>client := Some v\<rparr>),
         trace := trace st @ [CallFactory (read_field (factory (heap st a))), SetClient a v,
                              ClientQuery v q vs],
         exposed := insert a (exposed st)\<rparr>)"
  by (simp add: proxy_query_def getClient_factory_returns [OF assms] client_query_def emit_def)

lemma proxy_query_factory_throws:
  assumes "als_getStore st = Some a" "\<not> truthy (read_field (client (heap st a)))"
    "truthy (read_field (factory (heap st a)))"
    "invoke E (trace st) (read_field (factory (heap st a))) = Throws x"
  shows "proxy_query E q vs st =
     (Inl (Thrown x),
      st\<lparr>heap := factory_heap E (read_field (factory (heap st a))) a st,
         trace := trace st @ [CallFactory (read_field (factory (heap st a)))],
         exposed := insert a (exposed st)\<rparr>)"
  by (simp add: proxy_query_def getClient_factory_throws [OF assms])

lemma second_query_calls_factory:
  assumes "als_getStore st = Some a" "\<not> truthy (read_field (client (heap st a)))"
    "truthy (read_field (factory (heap st a)))"
  shows "\<exists>rest. trace (snd (proxy_query E q vs st)) =
           trace st @ CallFactory (read_field (factory (heap st a))) # rest"
proof (cases "invoke E (trace st) (read_field (factory (heap st a)))")
  case (Throws x)
  show ?thesis by (simp add: proxy_query_factory_throws [OF assms Throws])
next
  case (Returns v)
  show ?thesis by (simp add: proxy_query_factory_returns [OF assms Returns])
qed

lemma outcome_of_not_Error: "outcome_of r \<noteq> Inl (Error m)"
  by (cases r) simp_all

section \<open>Sequences of queries\<close>

lemma queries_cached:
  assumes quiet: "\<forall>h k H. outside_edits E h k H a = H a"
  shows "als_getStore st = Some a \<Longrightarrow> truthy (read_field (client (heap st a))) \<Longrightarrow>
     fst (queries E qs st) = delegated E (read_field (client (heap st a))) (trace st) qs
     \<and> trace (snd (queries E qs st)) =
         trace st @ map (query_event (read_field (client (heap st a)))) qs
     \<and> heap (snd (queries E qs st)) a = heap st a
     \<and> store (snd (queries E qs st)) = store st"
proof (induction qs arbitrary: st)
  case Nil
  then show ?case by simp
next
  case (Cons p qs)
  obtain q vs where p: "p = (q, vs)" by (cases p)
  let ?c = "read_field (client (heap st a))"
  define st1 where "st1 = st\<lparr>trace := trace st @ [ClientQuery ?c q vs]\<rparr>"
  define st2 where "st2 = outside E (length qs) st1"
  have s1: "proxy_query E q vs st = (outcome_of (query_method E (trace st) ?c q vs), st1)"
    unfolding st1_def using Cons.prems by (rule proxy_query_cached)
  have h2: "heap st2 a = heap st a"
    unfolding st2_def using quiet by (simp add: outside_record) (simp add: st1_def)
  have t2: "trace st2 = trace st @ [ClientQuery ?c q vs]" "store st2 = store st"
    by (simp_all add: st2_def outside_simps) (simp_all add: st1_def)
  have e2: "als_getStore st2 = Some a" "truthy (read_field (client (heap st2 a)))"
    using Cons.prems by (simp_all add: h2) (simp add: als_getStore_def t2)
  obtain rs st3 where q3: "queries E qs st2 = (rs, st3)" by (cases "queries E qs st2")
  from Cons.IH [OF e2] have r: "rs = delegated E ?c (trace st @ [ClientQuery ?c q vs]) qs"
    "trace st3 = (trace st @ [ClientQuery ?c q vs]) @ map (query_event ?c) qs"
    "heap st3 a = heap st a" "store st3 = store st"
    by (simp_all add: q3 h2 t2)
  have "queries E (p # qs) st = (outcome_of (query_method E (trace st) ?c q vs) # rs, st3)"
    unfolding p by (simp only: queries.simps s1 prod.case st2_def [symmetric] q3)
  then show ?case by (simp add: r p)
qed


lemma proxy_query_keeps_scope:
  assumes "als_getStore st = Some a"
    and "truthy (read_field (client (heap st a))) \<or>
         (truthy (read_field (factory (heap st a))) \<and>
          (\<forall>h H. factory_edits E h (read_field (factory (heap st a))) a H a = H a))"
  shows "fst (proxy_query E q vs st) \<noteq> Inl InvariantViolation
         \<and> als_getStore (snd (proxy_query E q vs st)) = Some a
         \<and> (truthy (read_field (client (heap (snd (proxy_query E q vs st)) a))) \<or>
            (truthy (read_field (factory (heap (snd (proxy_query E q vs st)) a))) \<and>
             (\<forall>h H. factory_edits E h
                 (read_field (factory (heap (snd (proxy_query E q vs st)) a))) a H a = H a)))"
proof (cases "truthy (read_field (client (heap st a)))")
  case True
  show ?thesis
    using True assms(1)
    by (simp add: proxy_query_cached [OF assms(1) True] InvariantViolation_def
        outcome_of_not_Error als_getStore_def)
next
  case False
  then have f: "truthy (read_field (factory (heap st a)))"
    and quiet: "\<forall>h H. factory_edits E h (read_field (factory (heap st a))) a H a = H a"
    using assms(2) by simp_all
  have FHa: "factory_heap E (read_field (factory (heap st a))) a st a = heap st a"
    using quiet by (simp add: factory_heap_def)
  show ?thesis
  proof (cases "invoke E (trace st) (read_field (factory (heap st a)))")
    case (Throws x)
    show ?thesis
      using assms(1) f quiet
      by (simp add: proxy_query_factory_throws [OF assms(1) False f Throws] FHa
          InvariantViolation_def als_getStore_def)
  next
    case (Returns v)
    show ?thesis
      using assms(1) f quiet
      by (simp add: proxy_query_factory_returns [OF assms(1) False f Returns] FHa
          InvariantViolation_def outcome_of_not_Error als_getStore_def)
  qed
qed

lemma queries_keep_scope:
  assumes out: "\<forall>h k H. outside_edits E h k H a = H a"
  shows "als_getStore st = Some a \<Longrightarrow>
   truthy (read_field (client (heap st a))) \<or>
     (truthy (read_field (factory (heap st a))) \<and>
      (\<forall>h H. factory_edits E h (read_field (factory (heap st a))) a H a = H a)) \<Longrightarrow>
   Inl InvariantViolation \<notin> set (fst (queries E qs st))"
proof (induction qs arbitrary: st)
  case Nil
  then show ?case by simp
next
  case (Cons p qs)
  obtain q vs where p: "p = (q, vs)" by (cases p)
  obtain r st1 where s1: "proxy_query E q vs st = (r, st1)" by (cases "proxy_query E q vs st")
  define st2 where "st2 = outside E (length qs) st1"
  from proxy_query_keeps_scope [OF Cons.prems, of q vs]
  have k: "r \<noteq> Inl InvariantViolation" "als_getStore st1 = Some a"
    "truthy (read_field (client (heap st1 a))) \<or>
       (truthy (read_field (factory (heap st1 a))) \<and>
        (\<forall>h H. factory_edits E h (read_field (factory (heap st1 a))) a H a = H a))"
    by (simp_all add: s1)
  have h2: "heap st2 a = heap st1 a"
    unfolding st2_def using out by (simp add: outside_record)
  have k2: "als_getStore st2 = Some a"
    "truthy (read_field (client (heap st2 a))) \<or>
       (truthy (read_field (factory (heap st2 a))) \<and>
        (\<forall>h H. factory_edits E h (read_field (factory (heap st2 a))) a H a = H a))"
    using k(2,3) by (simp_all add: h2) (simp add: st2_def outside_simps)
  from Cons.IH [OF k2] k(1) show ?case
    by (cases "queries E qs st2") (simp add: p s1 st2_def [symmetric])
qed

section \<open>Queries outside every scope\<close>

text \<open>
  Claim C1. A query issued through the proxy while the calling asynchronous context has no
  store fails with the error whose message is "No database context found. Make sure to call
  db.run() to establish a request context.", and nothing else happens: the state, and with
  it the history of calls to factories and clients, is unchanged, so no previous or default
  client is used. This is also so after a \<^verbatim>\<open>run\<close> in that context has completed: the
  store is empty again and a query fails in the same way.
\<close>

theorem query_without_scope_fails:
  assumes "als_getStore st = None"
  shows "proxy_query E q vs st =
           (Inl (Error ''No database context found. Make sure to call db.run() to establish a request context.''), st)
         \<and> als_getStore (snd (run E i callback st)) = None
         \<and> proxy_query E q vs (snd (run E i callback st)) =
           (Inl (Error ''No database context found. Make sure to call db.run() to establish a request context.''),
            snd (run E i callback st))"
proof -
  have a: "proxy_query E q vs s = (Inl ContextMissing, s)" if "als_getStore s = None" for s
    using that by (simp add: proxy_query_def getClientFromContext_def)
  have c: "als_getStore (snd (run E i callback st)) = None"
    using assms by (simp add: run_unfold als_getStore_def split: prod.splits)
  show ?thesis using a [OF assms] a [OF c] c by (simp add: ContextMissing_def)
qed

text \<open>In the initial state, and after a completed \<^verbatim>\<open>run\<close> with the client object 9.\<close>

theorem query_without_scope_fails_witness:
  "als_getStore init = None
   \<and> proxy_query env_ok select1 Undefined init =
       (Inl (Error ''No database context found. Make sure to call db.run() to establish a request context.''), init)
   \<and> proxy_query env_ok select1 Undefined
        (snd (run env_ok (Obj 9) (query_callback env_ok [(select1, Undefined)]) init)) =
       (Inl (Error ''No database context found. Make sure to call db.run() to establish a request context.''),
        snd (run env_ok (Obj 9) (query_callback env_ok [(select1, Undefined)]) init))"
proof -
  have h: "als_getStore init = None"
    by (simp add: als_getStore_def init_def)
  show ?thesis
    using h query_without_scope_fails [OF h, of env_ok select1 Undefined "Obj 9"
        "query_callback env_ok [(select1, Undefined)]"]
    by simp
qed

section \<open>The factory of a scope\<close>

text \<open>
  Claim C2, amended. In a scope established by \<^verbatim>\<open>run\<close> with a factory, for a sequence of
  at least one query in which the invocation of the factory returns a truthy value \<open>c\<close>,
  when the code outside the driver leaves the record of the scope alone (the factory, which
  receives the record as \<^verbatim>\<open>this\<close>, returns with the record as it found it, and no code that
  runs between the queries changes it): the effects of the whole \<^verbatim>\<open>run\<close> are one invocation
  of the factory, by the first query, one assignment of \<open>c\<close> to the \<^verbatim>\<open>client\<close> field of the
  record, and then every query of the sequence sent to \<open>c\<close>; each query produces what \<open>c\<close>
  answers; at the end the record holds \<open>c\<close> and the factory.
\<close>

theorem factory_invoked_once_per_scope:
  assumes "qs \<noteq> []"
    and "invoke E (trace st) (Func f) = Returns c"
    and "truthy c"
    and "factory_edits E (trace st) (Func f) (next_addr st)
           (heap (scope_entry E (Func f) st)) (next_addr st)
         = heap (scope_entry E (Func f) st) (next_addr st)"
    and "\<forall>h k H. outside_edits E h k H (next_addr st) = H (next_addr st)"
  shows "trace (snd (run E (Func f) (query_callback E qs) st)) =
           trace st @ CallFactory (Func f) # SetClient (next_addr st) c # map (query_event c) qs
         \<and> heap (snd (run E (Func f) (query_callback E qs) st)) (next_addr st) =
             \<lparr>client = Some c, factory = Some (Func f)\<rparr>
         \<and> fst (queries E qs (scope_entry E (Func f) st)) =
             delegated E c (trace st @ [CallFactory (Func f), SetClient (next_addr st) c]) qs
         \<and> length (filter is_CallFactory
              (drop (length (trace st)) (trace (snd (run E (Func f) (query_callback E qs) st))))) = 1
         \<and> length (filter is_SetClient
              (drop (length (trace st)) (trace (snd (run E (Func f) (query_callback E qs) st))))) = 1"
proof -
  obtain q vs qs' where qs: "qs = (q, vs) # qs'"
    using assms(1) by (cases qs) auto
  define a where "a = next_addr st"
  define s0 where "s0 = scope_entry E (Func f) st"
  have out: "\<forall>h k H. outside_edits E h k H a = H a"
    using assms(5) by (simp add: a_def)
  have s0: "als_getStore s0 = Some a" "heap s0 a = \<lparr>client = None, factory = Some (Func f)\<rparr>"
    "trace s0 = trace st"
    by (simp_all add: s0_def a_def scope_entry_Func als_getStore_def)
  have e0: "\<not> truthy (read_field (client (heap s0 a)))"
    "truthy (read_field (factory (heap s0 a)))" "read_field (factory (heap s0 a)) = Func f"
    by (simp_all add: s0(2) read_field_def)
  have inv0: "invoke E (trace s0) (read_field (factory (heap s0 a))) = Returns c"
    using assms(2) by (simp add: s0(3) e0(3))
  define FH where "FH = factory_heap E (Func f) a s0"
  have "factory_edits E (trace s0) (Func f) a (heap s0) a = heap s0 a"
    using assms(4) by (simp add: s0(3)) (simp add: s0_def a_def)
  then have FHa: "FH a = heap s0 a"
    unfolding FH_def by (rule factory_heap_untouched)
  define h1 where "h1 = trace st @ [CallFactory (Func f), SetClient a c]"
  define s1 where "s1 = s0\<lparr>heap := FH(a := (FH a)\<lparr>client := Some c\<rparr>),
         trace := h1 @ [ClientQuery c q vs], exposed := insert a (exposed s0)\<rparr>"
  define s2 where "s2 = outside E (length qs') s1"
  have first: "proxy_query E q vs s0 = (outcome_of (query_method E h1 c q vs), s1)"
    using proxy_query_factory_returns [OF s0(1) e0(1,2) inv0, of q vs]
    by (simp add: s1_def FH_def h1_def e0(3) s0(3))
  have c1: "trace s1 = h1 @ [ClientQuery c q vs]"
    "heap s1 a = \<lparr>client = Some c, factory = Some (Func f)\<rparr>" "als_getStore s1 = Some a"
    using s0(1) by (simp_all add: s1_def FHa s0(2) als_getStore_def)
  have c2: "trace s2 = h1 @ [ClientQuery c q vs]"
    "heap s2 a = \<lparr>client = Some c, factory = Some (Func f)\<rparr>" "als_getStore s2 = Some a"
    using out by (simp_all add: s2_def outside_simps outside_record c1)
  have e2: "truthy (read_field (client (heap s2 a)))" "read_field (client (heap s2 a)) = c"
    using assms(3) by (simp_all add: c2(2) read_field_def)
  obtain rs s3 where q3: "queries E qs' s2 = (rs, s3)" by (cases "queries E qs' s2")
  from queries_cached [OF out c2(3) e2(1), of qs']
  have r3: "rs = delegated E c (h1 @ [ClientQuery c q vs]) qs'"
    "trace s3 = (h1 @ [ClientQuery c q vs]) @ map (query_event c) qs'"
    "heap s3 a = \<lparr>client = Some c, factory = Some (Func f)\<rparr>"
    by (simp_all add: q3 c2(1,2) read_field_def)
  have all: "queries E qs s0 = (outcome_of (query_method E h1 c q vs) # rs, s3)"
    unfolding qs by (simp only: queries.simps first prod.case s2_def [symmetric] q3)
  have r: "snd (run E (Func f) (query_callback E qs) st) = s3\<lparr>store := store st\<rparr>"
    by (simp add: run_unfold query_callback_def s0_def [symmetric] all)
  have tr: "trace (snd (run E (Func f) (query_callback E qs) st)) =
      trace st @ CallFactory (Func f) # SetClient a c # map (query_event c) qs"
    by (simp only: r) (simp add: r3(2) h1_def qs)
  have hp: "heap (snd (run E (Func f) (query_callback E qs) st)) a =
      \<lparr>client = Some c, factory = Some (Func f)\<rparr>"
    by (simp add: r r3(3))
  have noq: "filter is_CallFactory (map (query_event c) qs) = []"
    "filter is_SetClient (map (query_event c) qs) = []"
    by (induction qs) auto
  have res: "fst (queries E qs (scope_entry E (Func f) st)) =
      delegated E c (trace st @ [CallFactory (Func f), SetClient a c]) qs"
    by (simp only: s0_def [symmetric] all) (simp add: r3(1) h1_def qs)
  show ?thesis
    using tr hp res by (simp add: a_def [symmetric] noq)
qed

text \<open>Two queries with a factory that returns the client object 7.\<close>

theorem factory_invoked_once_per_scope_witness:
  "[(select1, Undefined), (select1, Null)] \<noteq> []
   \<and> invoke env_ok (trace init) (Func 0) = Returns (Obj 7) \<and> truthy (Obj 7)
   \<and> factory_edits env_ok (trace init) (Func 0) (next_addr init)
        (heap (scope_entry env_ok (Func 0) init)) (next_addr init)
      = heap (scope_entry env_ok (Func 0) init) (next_addr init)
   \<and> (\<forall>h k H. outside_edits env_ok h k H (next_addr init) = H (next_addr init))
   \<and> trace (snd (run env_ok (Func 0) (query_callback env_ok [(select1, Undefined), (select1, Null)]) init))
       = [CallFactory (Func 0), SetClient 0 (Obj 7),
          ClientQuery (Obj 7) select1 Undefined, ClientQuery (Obj 7) select1 Null]
   \<and> heap (snd (run env_ok (Func 0) (query_callback env_ok [(select1, Undefined), (select1, Null)]) init)) 0
       = \<lparr>client = Some (Obj 7), factory = Some (Func 0)\<rparr>"
proof -
  have h: "[(select1, Undefined), (select1, Null)] \<noteq> []"
    "invoke env_ok (trace init) (Func 0) = Returns (Obj 7)" "truthy (Obj 7)"
    "factory_edits env_ok (trace init) (Func 0) (next_addr init)
        (heap (scope_entry env_ok (Func 0) init)) (next_addr init)
      = heap (scope_entry env_ok (Func 0) init) (next_addr init)"
    "\<forall>h k H. outside_edits env_ok h k H (next_addr init) = H (next_addr init)"
    by (simp_all add: env_ok_def)
  show ?thesis
    using h factory_invoked_once_per_scope [OF h]
    by (simp add: init_def)
qed

text \<open>
  As claim C2 is stated, with a factory that only has to return without throwing, it fails
  in three ways. A factory that returns \<^verbatim>\<open>undefined\<close> both times is invoked by each of two
  queries. A factory that returns a client and sets \<^verbatim>\<open>this.factory = undefined\<close> has mutated
  the record otherwise than by the one assignment of the client. A factory that returns a
  client and keeps \<^verbatim>\<open>this\<close>, with code that deletes the client of the kept record after the
  first query, is invoked again by the second query.
\<close>

theorem factory_claim_fails_for_some_factories:
  "invoke env_undefined [] (Func 0) = Returns Undefined
   \<and> invoke env_undefined
        [CallFactory (Func 0), SetClient 0 Undefined, ClientQuery Undefined select1 Undefined]
        (Func 0) = Returns Undefined
   \<and> filter is_CallFactory
        (trace (snd (run env_undefined (Func 0)
           (query_callback env_undefined [(select1, Undefined), (select1, Undefined)]) init)))
       = [CallFactory (Func 0), CallFactory (Func 0)]
   \<and> invoke env_unset_return [] (Func 0) = Returns (Obj 7) \<and> truthy (Obj 7)
   \<and> heap (snd (run env_unset_return (Func 0)
                 (query_callback env_unset_return [(select1, Undefined)]) init)) 0
       = \<lparr>client = Some (Obj 7), factory = Some Undefined\<rparr>
   \<and> invoke env_leak [] (Func 0) = Returns (Obj 7)
   \<and> invoke env_leak
        [CallFactory (Func 0), SetClient 0 (Obj 7), ClientQuery (Obj 7) select1 Undefined]
        (Func 0) = Returns (Obj 7)
   \<and> trace (snd (run env_leak (Func 0)
                 (query_callback env_leak [(select1, Undefined), (select1, Null)]) init))
       = [CallFactory (Func 0), SetClient 0 (Obj 7), ClientQuery (Obj 7) select1 Undefined,
          CallFactory (Func 0), SetClient 0 (Obj 7), ClientQuery (Obj 7) select1 Null]"
  by (simp add: env_undefined_def env_unset_return_def env_leak_def run_defs driver_defs
      factory_heap_def outside_def)

text \<open>
  Claim C3, amended. In a scope whose record has a factory and no truthy client, when the
  factory throws \<open>x\<close> at a query and returns with the record as it found it: the query fails
  with exactly \<open>x\<close>, the factory has been invoked once and no client has been queried, and
  the record is unchanged. When the code that runs outside the driver until the next query
  leaves the record alone as well, the next query of the scope invokes the factory again
  first, and when this invocation returns a client the query is answered by that client, which
  is then the \<^verbatim>\<open>client\<close> of the record.
\<close>

theorem factory_failure_propagates:
  assumes "als_getStore st = Some a"
    and "\<not> truthy (read_field (client (heap st a)))"
    and "f = read_field (factory (heap st a))"
    and "truthy f"
    and "invoke E (trace st) f = Throws x"
    and "factory_edits E (trace st) f a (heap st) a = heap st a"
    and "st' = snd (proxy_query E q vs st)"
    and "outside_edits E (trace st') k (heap st') a = heap st' a"
    and "st'' = outside E k st'"
  shows "fst (proxy_query E q vs st) = Inl (Thrown x)
         \<and> trace st' = trace st @ [CallFactory f]
         \<and> heap st' a = heap st a
         \<and> heap st'' a = heap st a
         \<and> (\<exists>rest. trace (snd (proxy_query E q' vs' st'')) = trace st' @ CallFactory f # rest)
         \<and> (\<forall>c. invoke E (trace st') f = Returns c \<longrightarrow>
               fst (proxy_query E q' vs' st'') =
                 outcome_of (query_method E (trace st' @ [CallFactory f, SetClient a c]) c q' vs')
               \<and> trace (snd (proxy_query E q' vs' st'')) =
                   trace st' @ [CallFactory f, SetClient a c, ClientQuery c q' vs']
               \<and> client (heap (snd (proxy_query E q' vs' st'')) a) = Some c)"
proof -
  have t: "truthy (read_field (factory (heap st a)))"
    "invoke E (trace st) (read_field (factory (heap st a))) = Throws x"
    using assms(3,4,5) by simp_all
  have FHa: "factory_heap E f a st a = heap st a"
    using assms(6) by (rule factory_heap_untouched)
  have one: "proxy_query E q vs st =
      (Inl (Thrown x), st\<lparr>heap := factory_heap E f a st, trace := trace st @ [CallFactory f],
                           exposed := insert a (exposed st)\<rparr>)"
    using proxy_query_factory_throws [OF assms(1,2) t] assms(3) by simp
  then have st': "st' = st\<lparr>heap := factory_heap E f a st, trace := trace st @ [CallFactory f],
                           exposed := insert a (exposed st)\<rparr>"
    using assms(7) by simp
  have tr: "trace st' = trace st @ [CallFactory f]" and hp: "heap st' a = heap st a"
    and so: "als_getStore st' = Some a"
    using assms(1) by (simp_all add: st' FHa als_getStore_def)
  have hp2: "heap st'' a = heap st a" and tr2: "trace st'' = trace st'"
    and so2: "als_getStore st'' = Some a"
    using outside_record [OF assms(8)] by (simp_all add: assms(9) outside_simps hp so)
  have e: "\<not> truthy (read_field (client (heap st'' a)))"
    "truthy (read_field (factory (heap st'' a)))" "read_field (factory (heap st'' a)) = f"
    using assms(2,3,4) by (simp_all add: hp2)
  have two: "\<exists>rest. trace (snd (proxy_query E q' vs' st'')) = trace st' @ CallFactory f # rest"
    using second_query_calls_factory [OF so2 e(1,2), of E q' vs'] e(3) by (simp add: tr2)
  have three: "fst (proxy_query E q' vs' st'') =
                 outcome_of (query_method E (trace st' @ [CallFactory f, SetClient a c]) c q' vs')
               \<and> trace (snd (proxy_query E q' vs' st'')) =
                   trace st' @ [CallFactory f, SetClient a c, ClientQuery c q' vs']
               \<and> client (heap (snd (proxy_query E q' vs' st'')) a) = Some c"
    if "invoke E (trace st') f = Returns c" for c
  proof -
    have "invoke E (trace st'') (read_field (factory (heap st'' a))) = Returns c"
      using that e(3) by (simp add: tr2)
    from proxy_query_factory_returns [OF so2 e(1,2) this, of q' vs'] show ?thesis
      using e(3) by (simp add: tr2)
  qed
  show ?thesis using one tr hp hp2 two three by simp
qed

text \<open>A factory that fails to connect the first time and returns the client 7 afterwards.\<close>

theorem factory_failure_propagates_witness:
  "als_getStore (scope_entry env_flaky (Func 0) init) = Some 0
   \<and> \<not> truthy (read_field (client (heap (scope_entry env_flaky (Func 0) init) 0)))
   \<and> invoke env_flaky (trace (scope_entry env_flaky (Func 0) init)) (Func 0)
        = Throws (Str ''connect failed'')
   \<and> factory_edits env_flaky (trace (scope_entry env_flaky (Func 0) init)) (Func 0) 0
        (heap (scope_entry env_flaky (Func 0) init)) 0
      = heap (scope_entry env_flaky (Func 0) init) 0
   \<and> fst (proxy_query env_flaky select1 Undefined (scope_entry env_flaky (Func 0) init))
        = Inl (Thrown (Str ''connect failed''))
   \<and> client (heap (snd (proxy_query env_flaky select1 Undefined
                          (scope_entry env_flaky (Func 0) init))) 0) = None
   \<and> fst (proxy_query env_flaky select1 Null
        (outside env_flaky 0
          (snd (proxy_query env_flaky select1 Undefined (scope_entry env_flaky (Func 0) init)))))
      = Inr (Str ''rows'')"
proof -
  let ?s = "scope_entry env_flaky (Func 0) init"
  let ?s' = "snd (proxy_query env_flaky select1 Undefined ?s)"
  let ?s'' = "outside env_flaky 0 ?s'"
  have h: "als_getStore ?s = Some 0" "\<not> truthy (read_field (client (heap ?s 0)))"
    "Func 0 = read_field (factory (heap ?s 0))" "truthy (Func 0)"
    "invoke env_flaky (trace ?s) (Func 0) = Throws (Str ''connect failed'')"
    "factory_edits env_flaky (trace ?s) (Func 0) 0 (heap ?s) 0 = heap ?s 0"
    by (simp_all add: env_flaky_def run_defs als_getStore_def)
  have o: "outside_edits env_flaky (trace ?s') 0 (heap ?s') 0 = heap ?s' 0"
    by (simp add: env_flaky_def)
  note T = factory_failure_propagates [OF h refl o refl, of select1 Null]
  have one: "fst (proxy_query env_flaky select1 Undefined ?s) = Inl (Thrown (Str ''connect failed''))"
    using T by blast
  have tr: "trace ?s' = trace ?s @ [CallFactory (Func 0)]"
    using T by blast
  have hp: "heap ?s' 0 = heap ?s 0"
    using T by blast
  have i: "invoke env_flaky (trace ?s') (Func 0) = Returns (Obj 7)"
    by (simp add: tr) (simp add: env_flaky_def)
  have "fst (proxy_query env_flaky select1 Null ?s'') =
      outcome_of (query_method env_flaky
          (trace ?s' @ [CallFactory (Func 0), SetClient 0 (Obj 7)]) (Obj 7) select1 Null)"
    using T i by blast
  then have two: "fst (proxy_query env_flaky select1 Null ?s'') = Inr (Str ''rows'')"
    by (simp add: env_flaky_def)
  have three: "client (heap ?s' 0) = None"
    by (simp add: hp) (simp add: run_defs)
  show ?thesis
    using h(1,2,5,6) one two three by simp
qed

text \<open>
  As claim C3 is stated, for every factory, it fails: the call of line 41 is a method call,
  and with the factory \<^verbatim>\<open>function () { delete this.factory; throw 'connect failed' }\<close> the
  record is changed by the failing query, the next query fails with the error of line 45,
  and the factory is invoked once in all.
\<close>

theorem factory_that_deletes_itself_is_not_retried:
  "invoke env_delete_throw [] (Func 0) = Throws (Str ''connect failed'')
   \<and> fst (proxy_query env_delete_throw select1 Undefined
            (scope_entry env_delete_throw (Func 0) init))
       = Inl (Thrown (Str ''connect failed''))
   \<and> heap (scope_entry env_delete_throw (Func 0) init) 0
       = \<lparr>client = None, factory = Some (Func 0)\<rparr>
   \<and> heap (snd (proxy_query env_delete_throw select1 Undefined
                  (scope_entry env_delete_throw (Func 0) init))) 0
       = \<lparr>client = None, factory = None\<rparr>
   \<and> fst (queries env_delete_throw [(select1, Undefined), (select1, Null)]
            (scope_entry env_delete_throw (Func 0) init))
       = [Inl (Thrown (Str ''connect failed'')), Inl InvariantViolation]
   \<and> trace (snd (queries env_delete_throw [(select1, Undefined), (select1, Null)]
                    (scope_entry env_delete_throw (Func 0) init)))
       = [CallFactory (Func 0)]"
  by (simp add: env_delete_throw_def run_defs driver_defs factory_heap_def outside_def)




section \<open>The entry point\<close>

text \<open>
  Claim C4. \<^verbatim>\<open>run\<close> executes the callback in the state \<open>scope_entry\<close>, where the record
  of the new scope, at a fresh address, is the store. For a string the pool has been
  constructed from it (the history ends with that construction) and is the \<^verbatim>\<open>client\<close> of the
  record; for a function the record has the function as \<^verbatim>\<open>factory\<close> and no client, the
  history is unchanged, and the first query of the scope begins by invoking the function; for
  any other value the record has the value as \<^verbatim>\<open>client\<close> and the history is unchanged.
\<close>

theorem run_normalizes_input:
  "run E i callback st =
     (case callback (scope_entry E i st) of (r, st') \<Rightarrow> (r, st'\<lparr>store := store st\<rparr>))
   \<and> scope_entry E i st =
       (case i of
          Str s \<Rightarrow>
            st\<lparr>heap := (heap st)(next_addr st :=
                  \<lparr>client = Some (Obj (pg_Pool E (trace st) s)), factory = None\<rparr>),
               next_addr := Suc (next_addr st), store := Some (next_addr st),
               trace := trace st @ [NewPool s]\<rparr>
        | Func f \<Rightarrow>
            st\<lparr>heap := (heap st)(next_addr st := \<lparr>client = None, factory = Some (Func f)\<rparr>),
               next_addr := Suc (next_addr st), store := Some (next_addr st)\<rparr>
        | _ \<Rightarrow>
            st\<lparr>heap := (heap st)(next_addr st := \<lparr>client = Some i, factory = None\<rparr>),
               next_addr := Suc (next_addr st), store := Some (next_addr st)\<rparr>)
   \<and> (\<exists>rest. trace (snd (proxy_query E q vs (scope_entry E (Func f) st))) =
                trace st @ CallFactory (Func f) # rest)"
proof -
  have two: "scope_entry E i st =
       (case i of
          Str s \<Rightarrow>
            st\<lparr>heap := (heap st)(next_addr st :=
                  \<lparr>client = Some (Obj (pg_Pool E (trace st) s)), factory = None\<rparr>),
               next_addr := Suc (next_addr st), store := Some (next_addr st),
               trace := trace st @ [NewPool s]\<rparr>
        | Func f \<Rightarrow>
            st\<lparr>heap := (heap st)(next_addr st := \<lparr>client = None, factory = Some (Func f)\<rparr>),
               next_addr := Suc (next_addr st), store := Some (next_addr st)\<rparr>
        | _ \<Rightarrow>
            st\<lparr>heap := (heap st)(next_addr st := \<lparr>client = Some i, factory = None\<rparr>),
               next_addr := Suc (next_addr st), store := Some (next_addr st)\<rparr>)"
    by (cases i) (simp_all add: scope_entry_Str scope_entry_Func scope_entry_other)
  let ?s = "scope_entry E (Func f) st"
  have e: "als_getStore ?s = Some (next_addr st)"
    "\<not> truthy (read_field (client (heap ?s (next_addr st))))"
    "truthy (read_field (factory (heap ?s (next_addr st))))"
    by (simp_all add: scope_entry_Func als_getStore_def read_field_def)
  have three: "\<exists>rest. trace (snd (proxy_query E q vs ?s)) = trace st @ CallFactory (Func f) # rest"
    using second_query_calls_factory [OF e, of E q vs]
    by (simp add: scope_entry_Func read_field_def)
  show ?thesis using run_unfold [of E i callback st] two three by blast
qed

text \<open>A connection string, a factory and a client object.\<close>

theorem run_normalizes_input_witness:
  "heap (scope_entry env_ok (Str ''postgres://h/db'') init) 0
      = \<lparr>client = Some (Obj 0), factory = None\<rparr>
   \<and> trace (scope_entry env_ok (Str ''postgres://h/db'') init) = [NewPool ''postgres://h/db'']
   \<and> heap (scope_entry env_ok (Func 4) init) 0 = \<lparr>client = None, factory = Some (Func 4)\<rparr>
   \<and> trace (scope_entry env_ok (Func 4) init) = []
   \<and> heap (scope_entry env_ok (Obj 9) init) 0 = \<lparr>client = Some (Obj 9), factory = None\<rparr>
   \<and> trace (scope_entry env_ok (Obj 9) init) = []"
  using run_normalizes_input [of env_ok "Str ''postgres://h/db''" "\<lambda>st. (Inr Undefined, st)" init]
    run_normalizes_input [of env_ok "Func 4" "\<lambda>st. (Inr Undefined, st)" init]
    run_normalizes_input [of env_ok "Obj 9" "\<lambda>st. (Inr Undefined, st)" init]
  by (simp add: env_ok_def init_def)

text \<open>
  Claim C5. The outcome of \<^verbatim>\<open>run\<close> is the outcome of the callback, executed in the scope:
  its value when it produces one, its failure when it fails.
\<close>

theorem run_returns_callback_outcome:
  "fst (run E i callback st) = fst (callback (scope_entry E i st))"
  by (simp add: run_unfold split: prod.splits)

text \<open>A callback that fails and a callback that produces 42.\<close>

theorem run_returns_callback_outcome_witness:
  "fst (run env_ok (Obj 3) (\<lambda>st. (Inl (Thrown (Str ''no'')), st)) init) = Inl (Thrown (Str ''no''))
   \<and> fst (run env_ok (Str ''postgres://h/db'') (\<lambda>st. (Inr (Num 42), st)) init) = Inr (Num 42)"
  using run_returns_callback_outcome [of env_ok "Obj 3" "\<lambda>st. (Inl (Thrown (Str ''no'')), st)" init]
    run_returns_callback_outcome [of env_ok "Str ''postgres://h/db''" "\<lambda>st. (Inr (Num 42), st)" init]
  by simp

text \<open>
  Claim C8. \<^verbatim>\<open>run\<close> with a connection string does what constructing the pool from the
  string and passing it to \<^verbatim>\<open>run\<close> does: the same outcome and the same final state (so
  the same calls, in the same order, with the same answers), for every callback.
\<close>

theorem run_string_equals_constructed_client:
  "run E (Str s) callback st = run_with_constructed_client E s callback st"
  by (simp add: run_with_constructed_client_def run_def new_Pool_def als_run_def emit_def alloc_def)

text \<open>One query, with the pool built inside \<^verbatim>\<open>run\<close> and with the pool built before.\<close>

theorem run_string_equals_constructed_client_witness:
  "run env_ok (Str ''postgres://h/db'') (query_callback env_ok [(select1, Undefined)]) init
     = run env_ok (Obj 0) (query_callback env_ok [(select1, Undefined)])
         (init\<lparr>trace := [NewPool ''postgres://h/db'']\<rparr>)"
  using run_string_equals_constructed_client
      [of env_ok "''postgres://h/db''" "query_callback env_ok [(select1, Undefined)]" init]
  by (simp add: run_with_constructed_client_def new_Pool_def emit_def env_ok_def init_def)

section \<open>Delegation\<close>

text \<open>
  Claim C6. In a scope whose record has a truthy \<^verbatim>\<open>client\<close> \<open>c\<close>, a query through the
  proxy is one call of \<^verbatim>\<open>c.query\<close> with the same text and the same values, and nothing
  else; its outcome is the outcome of that call: the value returned, or the value thrown.
\<close>

theorem query_delegates_to_present_client:
  assumes "als_getStore st = Some a"
    and "truthy (read_field (client (heap st a)))"
    and "c = read_field (client (heap st a))"
  shows "proxy_query E q vs st =
           (outcome_of (query_method E (trace st) c q vs), st\<lparr>trace := trace st @ [ClientQuery c q vs]\<rparr>)
         \<and> (\<forall>r. query_method E (trace st) c q vs = Returns r \<longrightarrow> fst (proxy_query E q vs st) = Inr r)
         \<and> (\<forall>x. query_method E (trace st) c q vs = Throws x \<longrightarrow>
                fst (proxy_query E q vs st) = Inl (Thrown x))"
  using assms by (simp add: driver_defs)

text \<open>A query with the client object 9.\<close>

theorem query_delegates_to_present_client_witness:
  "als_getStore (scope_entry env_ok (Obj 9) init) = Some 0
   \<and> truthy (read_field (client (heap (scope_entry env_ok (Obj 9) init) 0)))
   \<and> proxy_query env_ok select1 (Num 5) (scope_entry env_ok (Obj 9) init)
       = (Inr (Str ''rows''),
          (scope_entry env_ok (Obj 9) init)\<lparr>trace := [ClientQuery (Obj 9) select1 (Num 5)]\<rparr>)"
proof -
  let ?s = "scope_entry env_ok (Obj 9) init"
  have h: "als_getStore ?s = Some 0" "truthy (read_field (client (heap ?s 0)))"
    "Obj 9 = read_field (client (heap ?s 0))"
    by (simp_all add: run_defs als_getStore_def)
  show ?thesis
    using h query_delegates_to_present_client [OF h, of env_ok select1 "Num 5"]
    by (simp add: env_ok_def run_defs)
qed

section \<open>The record without client and factory\<close>

text \<open>
  Claim C7, amended. In a scope whose record has neither a truthy client nor a truthy
  factory a query fails with the error "No client or factory found in context. This should
  not happen.", which is not the error of a missing context. When \<^verbatim>\<open>run\<close> is called with a
  string or with a truthy value (a function and an object are truthy), and the code outside
  the driver leaves the record of the scope alone (the input, when it is called as the factory,
  and the code that runs between the queries), no query of the scope fails with this error;
  when \<^verbatim>\<open>run\<close> is called with a falsy value that is not a string, the first query does.
\<close>

theorem invariant_error_needs_falsy_input:
  "(als_getStore st = Some a \<longrightarrow> \<not> truthy (read_field (client (heap st a))) \<longrightarrow>
      \<not> truthy (read_field (factory (heap st a))) \<longrightarrow>
      proxy_query E q vs st =
        (Inl (Error ''No client or factory found in context. This should not happen.''), st))
   \<and> InvariantViolation \<noteq> ContextMissing
   \<and> ((typeof i = ''string'' \<or> truthy i) \<and>
       (\<forall>h H. factory_edits E h i (next_addr st0) H (next_addr st0) = H (next_addr st0)) \<and>
       (\<forall>h k H. outside_edits E h k H (next_addr st0) = H (next_addr st0)) \<longrightarrow>
        Inl InvariantViolation \<notin> set (fst (queries E qs (scope_entry E i st0))))
   \<and> (\<not> (typeof i = ''string'' \<or> truthy i) \<longrightarrow>
        proxy_query E q vs (scope_entry E i st0) = (Inl InvariantViolation, scope_entry E i st0))"
proof -
  let ?s = "scope_entry E i st0"
  let ?a = "next_addr st0"
  have one: "proxy_query E q vs st =
        (Inl (Error ''No client or factory found in context. This should not happen.''), st)"
    if "als_getStore st = Some a" "\<not> truthy (read_field (client (heap st a)))"
      "\<not> truthy (read_field (factory (heap st a)))"
    using getClient_neither [OF that] by (simp add: proxy_query_def InvariantViolation_def)
  have two: "InvariantViolation \<noteq> ContextMissing"
    by (simp add: InvariantViolation_def ContextMissing_def)
  have st: "als_getStore ?s = Some ?a"
    using scope_entry_record by blast
  have three: "Inl InvariantViolation \<notin> set (fst (queries E qs ?s))"
    if h: "typeof i = ''string'' \<or> truthy i"
      "\<forall>h H. factory_edits E h i ?a H ?a = H ?a"
      "\<forall>h k H. outside_edits E h k H ?a = H ?a"
  proof -
    have "truthy (read_field (client (heap ?s ?a))) \<or>
       (truthy (read_field (factory (heap ?s ?a))) \<and>
        (\<forall>h H. factory_edits E h (read_field (factory (heap ?s ?a))) ?a H ?a = H ?a))"
      using h(1,2) scope_entry_record [of E i st0] by (cases i) (simp_all add: read_field_def)
    from queries_keep_scope [OF h(3) st this] show ?thesis .
  qed
  have four: "proxy_query E q vs ?s = (Inl InvariantViolation, ?s)"
    if "\<not> (typeof i = ''string'' \<or> truthy i)"
  proof -
    have "\<not> truthy (read_field (client (heap ?s ?a)))"
      "\<not> truthy (read_field (factory (heap ?s ?a)))"
      using that scope_entry_record [of E i st0] by (cases i; simp add: read_field_def)+
    from getClient_neither [OF st this] show ?thesis by (simp add: proxy_query_def)
  qed
  show ?thesis using one two three four by blast
qed

text \<open>
  The record of \<^verbatim>\<open>run(0, ...)\<close>, a factory that fails once and leaves the record alone, and
  \<^verbatim>\<open>run(false, ...)\<close>.
\<close>

theorem invariant_error_needs_falsy_input_witness:
  "als_getStore (scope_entry env_ok (Num 0) init) = Some 0
   \<and> \<not> truthy (read_field (client (heap (scope_entry env_ok (Num 0) init) 0)))
   \<and> \<not> truthy (read_field (factory (heap (scope_entry env_ok (Num 0) init) 0)))
   \<and> proxy_query env_ok select1 Undefined (scope_entry env_ok (Num 0) init)
       = (Inl (Error ''No client or factory found in context. This should not happen.''),
          scope_entry env_ok (Num 0) init)
   \<and> (typeof (Func 0) = ''string'' \<or> truthy (Func 0))
   \<and> (\<forall>h H. factory_edits env_flaky h (Func 0) (next_addr init) H (next_addr init)
                 = H (next_addr init))
   \<and> (\<forall>h k H. outside_edits env_flaky h k H (next_addr init) = H (next_addr init))
   \<and> Inl InvariantViolation \<notin>
       set (fst (queries env_flaky [(select1, Undefined), (select1, Null)]
                   (scope_entry env_flaky (Func 0) init)))
   \<and> \<not> (typeof (Bool False) = ''string'' \<or> truthy (Bool False))
   \<and> proxy_query env_ok select1 Undefined (scope_entry env_ok (Bool False) init)
       = (Inl InvariantViolation, scope_entry env_ok (Bool False) init)"
proof -
  let ?s = "scope_entry env_ok (Num 0) init"
  have h: "als_getStore ?s = Some 0" "\<not> truthy (read_field (client (heap ?s 0)))"
    "\<not> truthy (read_field (factory (heap ?s 0)))"
    by (simp_all add: run_defs als_getStore_def)
  have g: "typeof (Func 0) = ''string'' \<or> truthy (Func 0)"
    "\<forall>h H. factory_edits env_flaky h (Func 0) (next_addr init) H (next_addr init)
                 = H (next_addr init)"
    "\<forall>h k H. outside_edits env_flaky h k H (next_addr init) = H (next_addr init)"
    "\<not> (typeof (Bool False) = ''string'' \<or> truthy (Bool False))"
    by (simp_all add: env_flaky_def)
  note T1 = invariant_error_needs_falsy_input
        [where st = ?s and a = 0 and E = env_flaky and q = select1 and vs = Undefined
           and i = "Func 0" and qs = "[(select1, Undefined), (select1, Null)]" and ?st0.0 = init]
  note T2 = invariant_error_needs_falsy_input
        [where st = ?s and a = 0 and E = env_ok and q = select1 and vs = Undefined
           and i = "Bool False" and qs = "[]" and ?st0.0 = init]
  have one: "proxy_query env_ok select1 Undefined ?s
       = (Inl (Error ''No client or factory found in context. This should not happen.''), ?s)"
    using T2 h by blast
  have two: "Inl InvariantViolation \<notin>
       set (fst (queries env_flaky [(select1, Undefined), (select1, Null)]
                   (scope_entry env_flaky (Func 0) init)))"
    using T1 g(1,2,3) by blast
  have three: "proxy_query env_ok select1 Undefined (scope_entry env_ok (Bool False) init)
       = (Inl InvariantViolation, scope_entry env_ok (Bool False) init)"
    using T2 g(4) by blast
  show ?thesis using h g one two three by blast
qed

text \<open>
  As claim C7 is stated, for every input that is neither \<^verbatim>\<open>null\<close> nor \<^verbatim>\<open>undefined\<close>, it
  fails in two ways: with \<^verbatim>\<open>false\<close> the record is \<^verbatim>\<open>{ client: false }\<close> and the query reaches
  the error; and with the function \<^verbatim>\<open>function () { delete this.factory; throw 'connect failed' }\<close>
  the second query of the scope reaches it.
\<close>

theorem invariant_error_reached_from_run:
  "Bool False \<noteq> Null \<and> Bool False \<noteq> Undefined
   \<and> fst (run env_ok (Bool False) (proxy_query env_ok select1 Undefined) init)
       = Inl InvariantViolation
   \<and> Func 0 \<noteq> Null \<and> Func 0 \<noteq> Undefined \<and> truthy (Func 0)
   \<and> fst (run env_delete_throw (Func 0)
            (query_callback env_delete_throw [(select1, Undefined), (select1, Null)]) init)
       = Inl InvariantViolation"
  by (simp add: env_ok_def env_delete_throw_def run_defs driver_defs factory_heap_def outside_def)

section \<open>Isolation of interleaved invocations\<close>

lemma resume_view: "resume c cs (view c cs) = cs"
  by (simp add: resume_def view_def)

lemma view_simps:
  "heap (view c cs) = c_heap cs" "next_addr (view c cs) = c_next_addr cs"
  "store (view c cs) = c_stores cs c" "trace (view c cs) = map snd (c_log cs)"
  "als_getStore (view c cs) = c_stores cs c" "exposed (view c cs) = c_exposed cs"
  by (simp_all add: view_def als_getStore_def)

lemma resume_simps:
  "c_heap (resume c cs st') = heap st'" "c_next_addr (resume c cs st') = next_addr st'"
  "c_stores (resume c cs st') = (c_stores cs)(c := store st')"
  "c_log (resume c cs st') = c_log cs @ map (Pair c) (drop (length (c_log cs)) (trace st'))"
  "c_exposed (resume c cs st') = exposed st'"
  by (simp_all add: resume_def)

lemma pools_from_append:
  "pools_from E c before (xs @ ys) = pools_from E c before xs @ pools_from E c (before @ xs) ys"
proof (induction xs arbitrary: before)
  case Nil
  then show ?case by simp
next
  case (Cons p xs)
  obtain d e where p: "p = (d, e)" by (cases p)
  show ?case using Cons.IH [of "before @ [(d, e)]"] by (cases e) (simp_all add: p)
qed

lemma memoized_append: "memoized c (xs @ ys) = memoized c xs @ memoized c ys"
proof (induction xs)
  case Nil
  then show ?case by simp
next
  case (Cons p xs)
  obtain d e where p: "p = (d, e)" by (cases p)
  show ?case using Cons.IH by (cases e) (simp_all add: p)
qed

lemma owned_from_append:
  "owned_from E i scope c before (xs @ ys) =
     (owned_from E i scope c before xs \<and> owned_from E i scope c (before @ xs) ys)"
proof (induction xs arbitrary: before)
  case Nil
  then show ?case by simp
next
  case (Cons p xs)
  obtain d e where p: "p = (d, e)" by (cases p)
  show ?case using Cons.IH [of "before @ [(d, e)]"] by (simp add: p)
qed

lemma owned_from_other:
  "c \<notin> fst ` set xs \<Longrightarrow> owned_from E i scope c before xs"
proof (induction xs arbitrary: before)
  case Nil
  then show ?case by simp
next
  case (Cons p xs)
  obtain d e where p: "p = (d, e)" by (cases p)
  show ?case using Cons by (auto simp: p)
qed

lemma record_of_input_mono:
  "record_of_input E c i log R \<Longrightarrow> record_of_input E c i (log @ new) R"
  by (cases i) (auto simp: pools_from_append memoized_append split: option.splits)

lemma Start_started: "Start c i \<in> set acts \<Longrightarrow> c \<in> set (started acts)"
  by (induction acts rule: started.induct) auto

lemma started_Start: "c \<in> set (started acts) \<Longrightarrow> \<exists>i. Start c i \<in> set acts"
  by (induction acts rule: started.induct) auto

lemma started_append: "started (xs @ ys) = started xs @ started ys"
  by (induction xs rule: started.induct) auto

lemma Start_unique:
  "distinct (started acts) \<Longrightarrow> Start c i \<in> set acts \<Longrightarrow> Start c j \<in> set acts \<Longrightarrow> i = j"
proof (induction acts rule: started.induct)
  case 1
  then show ?case by simp
next
  case (2 d k acts)
  then show ?case by (auto dest: Start_started)
next
  case (3 d q vs acts)
  then show ?case by auto
next
  case (4 k acts)
  then show ?case by auto
qed

text \<open>What one piece of a chain does to the state of all chains.\<close>

lemma step_Start_props:
  fixes cs :: cstate
  defines "n \<equiv> c_next_addr cs"
  shows "\<exists>L. c_heap (step E (Start c i) cs) n = heap (scope_entry E i (view c cs)) n
     \<and> (\<forall>a. a \<noteq> n \<longrightarrow> c_heap (step E (Start c i) cs) a = c_heap cs a)
     \<and> c_next_addr (step E (Start c i) cs) = Suc n
     \<and> c_stores (step E (Start c i) cs) = (c_stores cs)(c := Some n)
     \<and> c_log (step E (Start c i) cs) = c_log cs @ L
     \<and> fst ` set L \<subseteq> {c}
     \<and> owned_from E i (Some n) c (c_log cs) L
     \<and> record_of_input E c i (c_log cs @ L) (c_heap (step E (Start c i) cs) n)"
proof (cases i)
  case (Str s)
  show ?thesis
    by (rule exI [of _ "[(c, NewPool s)]"])
      (simp add: Str n_def resume_simps scope_entry_Str view_simps pools_from_append)
next
  case (Func f)
  show ?thesis
    by (rule exI [of _ "[]"]) (simp add: Func n_def resume_simps scope_entry_Func view_simps)
qed (rule exI [of _ "[]"], simp add: n_def resume_simps scope_entry_other view_simps)+

lemma step_Issue_none: "c_stores cs c = None \<Longrightarrow> step E (Issue c q vs) cs = cs"
  by (simp add: proxy_query_def getClientFromContext_def view_simps resume_view)

lemma step_Outside_quiet:
  assumes "\<forall>h k H b. outside_edits E h k H b = H b"
  shows "step E (Outside k) cs = cs"
  by (simp add: outside_quiet [OF assms] view_simps)

lemma step_Issue_props:
  assumes quiet: "\<forall>h f a H b. factory_edits E h f a H b = H b"
    and st: "c_stores cs c = Some a"
    and rec: "record_of_input E c i (c_log cs) (c_heap cs a)"
  shows "\<exists>R' L. c_heap (step E (Issue c q vs) cs) = (c_heap cs)(a := R')
     \<and> c_next_addr (step E (Issue c q vs) cs) = c_next_addr cs
     \<and> c_stores (step E (Issue c q vs) cs) = c_stores cs
     \<and> c_log (step E (Issue c q vs) cs) = c_log cs @ L
     \<and> fst ` set L \<subseteq> {c}
     \<and> owned_from E i (Some a) c (c_log cs) L
     \<and> record_of_input E c i (c_log cs @ L) R'"
proof -
  let ?v = "view c cs"
  let ?R = "c_heap cs a"
  have g: "als_getStore ?v = Some a" "heap ?v a = ?R"
    using st by (simp_all add: view_simps)
  have sts: "(c_stores cs)(c := Some a) = c_stores cs"
    using st by auto
  have fh: "factory_heap E f' a ?v = c_heap cs" for f'
    using factory_heap_quiet [OF quiet, of f' a ?v] by (simp add: view_simps)
  show ?thesis
  proof (cases "truthy (read_field (client ?R))")
    case True
    let ?x = "read_field (client ?R)"
    have t: "truthy (read_field (client (heap ?v a)))" using True g by simp
    have own: "own_event E i (Some a) c (c_log cs) (ClientQuery ?x q vs)"
      using rec True by (cases i) (auto simp: read_field_def split: option.splits)
    show ?thesis
      apply (rule exI [of _ ?R], rule exI [of _ "[(c, ClientQuery ?x q vs)]"])
      using own rec st
      by (simp add: proxy_query_cached [OF g(1) t] resume_simps view_simps sts
          record_of_input_mono)
  next
    case False
    have nt: "\<not> truthy (read_field (client (heap ?v a)))" using False g by simp
    show ?thesis
    proof (cases "truthy (read_field (factory ?R))")
      case no: False
      have nf: "\<not> truthy (read_field (factory (heap ?v a)))" using no g by simp
      have "proxy_query E q vs ?v = (Inl InvariantViolation, ?v)"
        by (simp add: proxy_query_def getClient_neither [OF g(1) nt nf])
      then have "step E (Issue c q vs) cs = cs"
        by (simp add: resume_view)
      then show ?thesis
        apply (intro exI [of _ ?R] exI [of _ "[]"])
        using rec by simp
    next
      case yes: True
      have tf: "truthy (read_field (factory (heap ?v a)))" using yes g by simp
      from rec yes obtain f where i: "i = Func f" and fR: "factory ?R = Some (Func f)"
        by (cases i) (auto simp: read_field_def)
      have rf: "read_field (factory (heap ?v a)) = i"
        using fR g by (simp add: read_field_def i)
      show ?thesis
      proof (cases "invoke E (trace ?v) (read_field (factory (heap ?v a)))")
        case (Throws x)
        show ?thesis
          apply (intro exI [of _ ?R] exI [of _ "[(c, CallFactory i)]"])
          using rec st rf
          by (simp add: proxy_query_factory_throws [OF g(1) nt tf Throws] resume_simps
              view_simps sts record_of_input_mono fh) (simp add: i)
      next
        case (Returns v)
        have inv: "invoke E (map snd (c_log cs)) i = Returns v"
          using Returns rf by (simp add: view_simps)
        show ?thesis
          apply (intro exI [of _ "?R\<lparr>client := Some v\<rparr>"]
              exI [of _ "[(c, CallFactory i), (c, SetClient a v), (c, ClientQuery v q vs)]"])
          using st rf fR inv
          by (simp add: proxy_query_factory_returns [OF g(1) nt tf Returns] resume_simps
              view_simps sts memoized_append fh) (simp add: i memoized_append)
      qed
    qed
  qed
qed

text \<open>
  The invariant \<open>scopes_ok\<close>, kept when the outside leaves the contexts alone: a chain that has not started has no store and no effect in
  the log; a started chain has a record of its own, built from its input, and all its
  effects are its own; no two chains share a record.
\<close>

lemma scopes_ok_init: "scopes_ok E [] c_init"
  by (simp add: scopes_ok_def c_init_def)

lemma scope_below_next:
  assumes ok: "scopes_ok E acts cs" and st: "c_stores cs d = Some a"
  shows "a < c_next_addr cs"
proof -
  have "d \<in> set (started acts)"
    using ok st by (auto simp: scopes_ok_def)
  then obtain j where "Start d j \<in> set acts"
    using started_Start by blast
  with ok have "\<exists>b. b < c_next_addr cs \<and> c_stores cs d = Some b"
    unfolding scopes_ok_def by blast
  then show ?thesis
    using st by auto
qed

lemma scopes_ok_acts_cong:
  "set (started acts') = set (started acts) \<Longrightarrow>
   (\<And>c i. Start c i \<in> set acts' \<longleftrightarrow> Start c i \<in> set acts) \<Longrightarrow>
   scopes_ok E acts cs \<Longrightarrow> scopes_ok E acts' cs"
  unfolding scopes_ok_def by simp

lemma scopes_ok_Start:
  assumes ok: "scopes_ok E acts cs" and fresh: "c \<notin> set (started acts)"
  shows "scopes_ok E (acts @ [Start c i]) (step E (Start c i) cs)"
proof -
  define cs' where "cs' = step E (Start c i) cs"
  let ?cs' = "cs'"
  let ?n = "c_next_addr cs"
  from step_Start_props [of E c i cs] obtain L where
    hn: "c_heap ?cs' ?n = heap (scope_entry E i (view c cs)) ?n"
    and ho: "\<And>a. a \<noteq> ?n \<Longrightarrow> c_heap ?cs' a = c_heap cs a"
    and nx: "c_next_addr ?cs' = Suc ?n"
    and sts: "c_stores ?cs' = (c_stores cs)(c := Some ?n)"
    and lg: "c_log ?cs' = c_log cs @ L"
    and tag: "fst ` set L \<subseteq> {c}"
    and own: "owned_from E i (Some ?n) c (c_log cs) L"
    and rec: "record_of_input E c i (c_log cs @ L) (c_heap ?cs' ?n)"
    unfolding cs'_def by blast
  have old1: "c_stores cs c = None" "c \<notin> fst ` set (c_log cs)"
    using ok fresh by (auto simp: scopes_ok_def)
  have only_i: "j = i" if "Start c j \<in> set (acts @ [Start c i])" for j
    using that fresh Start_started [of c j acts] by auto
  have c1: "c_stores ?cs' d = None \<and> d \<notin> fst ` set (c_log ?cs')"
    if "d \<notin> set (started (acts @ [Start c i]))" for d
  proof -
    have d: "d \<noteq> c" "d \<notin> set (started acts)"
      using that by (simp_all add: started_append)
    then have "c_stores cs d = None" "d \<notin> fst ` set (c_log cs)"
      using ok by (auto simp: scopes_ok_def)
    then show ?thesis
      using d(1) tag by (auto simp: sts lg)
  qed
  have c2: "\<exists>a. a < c_next_addr ?cs' \<and> c_stores ?cs' d = Some a
        \<and> record_of_input E d j (c_log ?cs') (c_heap ?cs' a)
        \<and> owned_from E j (Some a) d [] (c_log ?cs')"
    if "Start d j \<in> set (acts @ [Start c i])" for d j
  proof (cases "d = c")
    case True
    then have j: "j = i" using that only_i by simp
    have "owned_from E i (Some ?n) c [] (c_log cs @ L)"
      using own owned_from_other [OF old1(2)] by (simp add: owned_from_append)
    then show ?thesis
      using rec by (intro exI [of _ ?n]) (simp add: True j nx sts lg)
  next
    case False
    then have "Start d j \<in> set acts" using that by simp
    with ok have "\<exists>a. a < ?n \<and> c_stores cs d = Some a
        \<and> record_of_input E d j (c_log cs) (c_heap cs a)
        \<and> owned_from E j (Some a) d [] (c_log cs)"
      unfolding scopes_ok_def by blast
    then obtain a where a: "a < ?n" "c_stores cs d = Some a"
      "record_of_input E d j (c_log cs) (c_heap cs a)"
      "owned_from E j (Some a) d [] (c_log cs)"
      by blast
    have "d \<notin> fst ` set L" using tag False by auto
    then have "owned_from E j (Some a) d [] (c_log cs @ L)"
      using a(4) owned_from_other by (simp add: owned_from_append)
    then show ?thesis
      using a False ho [of a]
      by (intro exI [of _ a]) (simp add: nx sts lg record_of_input_mono)
  qed
  have c3: "x = y" if "c_stores ?cs' x = Some a" "c_stores ?cs' y = Some a" for x y a
  proof -
    have lt: "b < ?n" if "c_stores cs z = Some b" for z b
      using scope_below_next [OF ok that] .
    have inj: "x = y" if "c_stores cs x = Some a" "c_stores cs y = Some a"
      using ok that by (auto simp: scopes_ok_def)
    show ?thesis
      using that lt inj by (auto simp: sts split: if_splits)
  qed
  have "scopes_ok E (acts @ [Start c i]) cs'"
    unfolding scopes_ok_def using c1 c2 c3 by blast
  then show ?thesis by (simp only: cs'_def)
qed

lemma scopes_ok_Issue:
  assumes quiet: "\<forall>h f a H b. factory_edits E h f a H b = H b"
    and ok: "scopes_ok E acts cs" and dist: "distinct (started acts)"
  shows "scopes_ok E (acts @ [Issue c q vs]) (step E (Issue c q vs) cs)"
proof (cases "c_stores cs c")
  case None
  have "scopes_ok E (acts @ [Issue c q vs]) cs"
    by (rule scopes_ok_acts_cong [OF _ _ ok]) (simp_all add: started_append)
  then show ?thesis by (simp only: step_Issue_none [OF None])
next
  case (Some a)
  define cs' where "cs' = step E (Issue c q vs) cs"
  have "c \<in> set (started acts)"
    using ok Some unfolding scopes_ok_def by force
  then obtain i where i: "Start c i \<in> set acts"
    using started_Start by blast
  with ok have "\<exists>b. b < c_next_addr cs \<and> c_stores cs c = Some b
        \<and> record_of_input E c i (c_log cs) (c_heap cs b)
        \<and> owned_from E i (Some b) c [] (c_log cs)"
    unfolding scopes_ok_def by blast
  then have a: "a < c_next_addr cs" "record_of_input E c i (c_log cs) (c_heap cs a)"
    "owned_from E i (Some a) c [] (c_log cs)"
    using Some by auto
  from step_Issue_props [OF quiet Some a(2), of q vs] obtain R' L where
    hp: "c_heap cs' = (c_heap cs)(a := R')"
    and nx: "c_next_addr cs' = c_next_addr cs"
    and sts: "c_stores cs' = c_stores cs"
    and lg: "c_log cs' = c_log cs @ L"
    and tag: "fst ` set L \<subseteq> {c}"
    and own: "owned_from E i (Some a) c (c_log cs) L"
    and rec: "record_of_input E c i (c_log cs @ L) R'"
    unfolding cs'_def by blast
  have inj: "x = y" if "c_stores cs x = Some b" "c_stores cs y = Some b" for x y b
    using ok that unfolding scopes_ok_def by blast
  have c1: "c_stores cs' d = None \<and> d \<notin> fst ` set (c_log cs')"
    if "d \<notin> set (started acts)" for d
  proof -
    have "c_stores cs d = None" "d \<notin> fst ` set (c_log cs)"
      using ok that unfolding scopes_ok_def by blast+
    moreover have "d \<noteq> c" using that \<open>c \<in> set (started acts)\<close> by auto
    ultimately show ?thesis using tag by (auto simp: sts lg)
  qed
  have c2: "\<exists>b. b < c_next_addr cs' \<and> c_stores cs' d = Some b
        \<and> record_of_input E d j (c_log cs') (c_heap cs' b)
        \<and> owned_from E j (Some b) d [] (c_log cs')"
    if "Start d j \<in> set acts" for d j
  proof (cases "d = c")
    case True
    then have j: "j = i" using Start_unique [OF dist _ i] that by simp
    have "owned_from E i (Some a) c [] (c_log cs @ L)"
      using a(3) own by (simp add: owned_from_append)
    then show ?thesis
      using rec a(1) Some by (intro exI [of _ a]) (simp add: True j nx sts lg hp)
  next
    case False
    from ok that have "\<exists>b. b < c_next_addr cs \<and> c_stores cs d = Some b
        \<and> record_of_input E d j (c_log cs) (c_heap cs b)
        \<and> owned_from E j (Some b) d [] (c_log cs)"
      unfolding scopes_ok_def by blast
    then obtain b where b: "b < c_next_addr cs" "c_stores cs d = Some b"
      "record_of_input E d j (c_log cs) (c_heap cs b)"
      "owned_from E j (Some b) d [] (c_log cs)"
      by blast
    have ne: "b \<noteq> a" using inj [OF b(2), of c] Some False by auto
    have "d \<notin> fst ` set L" using tag False by auto
    then have "owned_from E j (Some b) d [] (c_log cs @ L)"
      using b(4) owned_from_other by (simp add: owned_from_append)
    then show ?thesis
      using b ne by (intro exI [of _ b]) (simp add: nx sts lg hp record_of_input_mono)
  qed
  have c3: "x = y" if "c_stores cs' x = Some b" "c_stores cs' y = Some b" for x y b
    using that inj by (simp add: sts)
  have "scopes_ok E acts cs'"
    unfolding scopes_ok_def using c1 c2 c3 by blast
  then have "scopes_ok E (acts @ [Issue c q vs]) cs'"
    by (rule scopes_ok_acts_cong [rotated 2]) (simp_all add: started_append)
  then show ?thesis by (simp only: cs'_def)
qed

lemma scopes_ok_interleave:
  assumes quiet: "\<forall>h f a H b. factory_edits E h f a H b = H b"
    and out: "\<forall>h k H b. outside_edits E h k H b = H b"
  shows "distinct (started acts) \<Longrightarrow> scopes_ok E acts (interleave E acts)"
proof (induction acts rule: rev_induct)
  case Nil
  show ?case by (simp add: interleave_def scopes_ok_init)
next
  case (snoc act acts)
  have d: "distinct (started acts)"
    using snoc.prems by (simp add: started_append)
  have ok: "scopes_ok E acts (interleave E acts)"
    using snoc.IH [OF d] .
  have il: "interleave E (acts @ [x]) = step E x (interleave E acts)" for x
    by (simp add: interleave_def)
  show ?case
  proof (cases act)
    case (Start c i)
    have "c \<notin> set (started acts)"
      using snoc.prems by (simp add: Start started_append)
    from scopes_ok_Start [OF ok this] show ?thesis
      by (simp only: il Start)
  next
    case (Issue c q vs)
    from scopes_ok_Issue [OF quiet ok d] show ?thesis
      by (simp only: il Issue)
  next
    case (Outside k)
    have "scopes_ok E (acts @ [Outside k]) (interleave E acts)"
      by (rule scopes_ok_acts_cong [OF _ _ ok]) (simp_all add: started_append)
    then show ?thesis
      by (simp only: il Outside step_Outside_quiet [OF out])
  qed
qed

text \<open>What the effects of a chain are when all of them are its own.\<close>

lemma owned_from_at:
  "owned_from E i scope c before xs \<Longrightarrow> (c, e) \<in> set xs \<Longrightarrow>
   \<exists>k. k \<le> length xs \<and> own_event E i scope c (before @ take k xs) e"
proof (induction xs arbitrary: before)
  case Nil
  then show ?case by simp
next
  case (Cons p xs)
  show ?case
  proof (cases "p = (c, e)")
    case True
    then have "own_event E i scope c (before @ take 0 (p # xs)) e"
      using Cons.prems(1) by simp
    then show ?thesis by blast
  next
    case False
    obtain d e' where p: "p = (d, e')" by (cases p)
    have "owned_from E i scope c (before @ [p]) xs" "(c, e) \<in> set xs"
      using Cons.prems False by (auto simp: p)
    from Cons.IH [OF this] obtain k where
      "k \<le> length xs" "own_event E i scope c ((before @ [p]) @ take k xs) e"
      by blast
    then have "Suc k \<le> length (p # xs)"
      "own_event E i scope c (before @ take (Suc k) (p # xs)) e"
      by simp_all
    then show ?thesis by blast
  qed
qed

lemma pools_from_source:
  "x \<in> set (pools_from E c before xs) \<Longrightarrow> \<exists>s. (c, NewPool s) \<in> set xs"
proof (induction xs arbitrary: before)
  case Nil
  then show ?case by simp
next
  case (Cons p xs)
  obtain d e where p: "p = (d, e)" by (cases p)
  show ?case
    using Cons.prems Cons.IH [of "before @ [(d, e)]"]
    by (cases e) (auto simp: p split: if_splits)
qed

lemma memoized_source:
  "x \<in> set (memoized c xs) \<Longrightarrow> \<exists>a. (c, SetClient a x) \<in> set xs"
proof (induction xs)
  case Nil
  then show ?case by simp
next
  case (Cons p xs)
  obtain d e where p: "p = (d, e)" by (cases p)
  show ?case
    using Cons by (cases e) (auto simp: p split: if_splits)
qed

lemma owned_effects:
  assumes own: "owned_from E i scope c [] log"
  shows "(\<forall>s. (c, NewPool s) \<in> set log \<longrightarrow> i = Str s)
     \<and> (\<forall>f. (c, CallFactory f) \<in> set log \<longrightarrow> f = i \<and> typeof i = ''function'')
     \<and> (\<forall>a v. (c, SetClient a v) \<in> set log \<longrightarrow> scope = Some a \<and> typeof i = ''function'')
     \<and> (\<forall>x q vs. (c, ClientQuery x q vs) \<in> set log \<longrightarrow>
           typeof i \<noteq> ''string'' \<longrightarrow> typeof i \<noteq> ''function'' \<longrightarrow> x = i)"
proof -
  have np: "i = Str s" if "(c, NewPool s) \<in> set log" for s
    using owned_from_at [OF own that] by auto
  have cf: "f = i \<and> typeof i = ''function''" if "(c, CallFactory f) \<in> set log" for f
    using owned_from_at [OF own that] by auto
  have sc: "scope = Some a \<and> typeof i = ''function''" if h: "(c, SetClient a v) \<in> set log" for a v
  proof -
    from owned_from_at [OF own h] obtain k where
      k: "scope = Some a" "take k log \<noteq> []" "last (take k log) = (c, CallFactory i)"
      by auto
    have "(c, CallFactory i) \<in> set (take k log)"
      using last_in_set [OF k(2)] k(3) by simp
    then have "(c, CallFactory i) \<in> set log"
      by (rule in_set_takeD)
    with cf k(1) show ?thesis by blast
  qed
  have cq: "x = i" if h: "(c, ClientQuery x q vs) \<in> set log"
    "typeof i \<noteq> ''string''" "typeof i \<noteq> ''function''" for x q vs
  proof -
    from owned_from_at [OF own h(1)] obtain k where
      k: "x = i \<or> x \<in> set (pools_from E c [] (take k log)) \<or> x \<in> set (memoized c (take k log))"
      using h(2,3) by auto
    have "x \<notin> set (pools_from E c [] (take k log))"
    proof
      assume "x \<in> set (pools_from E c [] (take k log))"
      then obtain s where "(c, NewPool s) \<in> set (take k log)"
        using pools_from_source by blast
      then have "(c, NewPool s) \<in> set log" by (rule in_set_takeD)
      with np h(2) show False by auto
    qed
    moreover have "x \<notin> set (memoized c (take k log))"
    proof
      assume "x \<in> set (memoized c (take k log))"
      then obtain a where "(c, SetClient a x) \<in> set (take k log)"
        using memoized_source by blast
      then have "(c, SetClient a x) \<in> set log" by (rule in_set_takeD)
      with sc h(3) show False by blast
    qed
    ultimately show ?thesis using k by blast
  qed
  show ?thesis using np cf sc cq by blast
qed

text \<open>
  Claim C9, amended. When no code outside the driver changes a context (no factory changes
  the record it receives as \<^verbatim>\<open>this\<close> or a record kept earlier, and no other code does): for
  every interleaving of the pieces of any number of invocations of \<^verbatim>\<open>run\<close>, each invocation
  a chain of its own, and for every invocation \<open>c\<close>, given \<open>i\<close>: the store of \<open>c\<close> is a
  record that is the store of no other chain and that holds what \<open>i\<close> gives, or what \<open>c\<close>
  itself assigned; and every effect of a query of \<open>c\<close> is its own: the factory it invokes is
  \<open>i\<close>, the record it assigns to is its own, and the client it queries is \<open>i\<close>, the pool its
  own \<^verbatim>\<open>run\<close> constructed, or a value its own factory returned to it, never what belongs to
  another chain only. In particular an invocation that was given a client object queries that
  object and nothing else, whatever the other invocations were given.
\<close>

theorem concurrent_scopes_are_isolated:
  assumes "\<forall>h f a H b. factory_edits E h f a H b = H b"
    and "\<forall>h k H b. outside_edits E h k H b = H b"
    and "distinct (started acts)"
    and "Start c i \<in> set acts"
  shows "\<exists>a. c_stores (interleave E acts) c = Some a
           \<and> (\<forall>d. d \<noteq> c \<longrightarrow> c_stores (interleave E acts) d \<noteq> Some a)
           \<and> record_of_input E c i (c_log (interleave E acts)) (c_heap (interleave E acts) a)
           \<and> owned_from E i (Some a) c [] (c_log (interleave E acts))
           \<and> (\<forall>s. (c, NewPool s) \<in> set (c_log (interleave E acts)) \<longrightarrow> i = Str s)
           \<and> (\<forall>f. (c, CallFactory f) \<in> set (c_log (interleave E acts)) \<longrightarrow> f = i)
           \<and> (\<forall>a' v. (c, SetClient a' v) \<in> set (c_log (interleave E acts)) \<longrightarrow> a' = a)
           \<and> (\<forall>x q vs. (c, ClientQuery x q vs) \<in> set (c_log (interleave E acts)) \<longrightarrow>
                 typeof i \<noteq> ''string'' \<longrightarrow> typeof i \<noteq> ''function'' \<longrightarrow> x = i)"
proof -
  let ?cs = "interleave E acts"
  have ok: "scopes_ok E acts ?cs"
    using scopes_ok_interleave [OF assms(1,2,3)] .
  with assms(4) have "\<exists>a. a < c_next_addr ?cs \<and> c_stores ?cs c = Some a
        \<and> record_of_input E c i (c_log ?cs) (c_heap ?cs a)
        \<and> owned_from E i (Some a) c [] (c_log ?cs)"
    unfolding scopes_ok_def by blast
  then obtain a where a: "c_stores ?cs c = Some a"
    "record_of_input E c i (c_log ?cs) (c_heap ?cs a)"
    "owned_from E i (Some a) c [] (c_log ?cs)"
    by blast
  have alone: "\<forall>d. d \<noteq> c \<longrightarrow> c_stores ?cs d \<noteq> Some a"
    using ok a(1) unfolding scopes_ok_def by blast
  note eff = owned_effects [OF a(3)]
  have e1: "\<forall>s. (c, NewPool s) \<in> set (c_log ?cs) \<longrightarrow> i = Str s"
    using eff by blast
  have e2: "\<forall>f. (c, CallFactory f) \<in> set (c_log ?cs) \<longrightarrow> f = i"
    using eff by blast
  have e3: "\<forall>a' v. (c, SetClient a' v) \<in> set (c_log ?cs) \<longrightarrow> a' = a"
    using eff by blast
  have e4: "\<forall>x q vs. (c, ClientQuery x q vs) \<in> set (c_log ?cs) \<longrightarrow>
                 typeof i \<noteq> ''string'' \<longrightarrow> typeof i \<noteq> ''function'' \<longrightarrow> x = i"
    using eff by blast
  show ?thesis
    using a alone e1 e2 e3 e4 by (intro exI [of _ a] conjI)
qed

text \<open>Two interleaved requests, one with a client and one with a factory.\<close>

theorem concurrent_scopes_are_isolated_witness:
  "(\<forall>h f a H b. factory_edits env_ok h f a H b = H b)
   \<and> (\<forall>h k H b. outside_edits env_ok h k H b = H b)
   \<and> distinct (started two_requests)
   \<and> Start 1 (Obj 11) \<in> set two_requests \<and> Start 2 (Func 5) \<in> set two_requests
   \<and> c_log (interleave env_ok two_requests) =
       [(1, ClientQuery (Obj 11) select1 Undefined),
        (2, CallFactory (Func 5)), (2, SetClient 1 (Obj 7)),
        (2, ClientQuery (Obj 7) select1 Undefined),
        (1, ClientQuery (Obj 11) select1 Null),
        (2, ClientQuery (Obj 7) select1 Null)]
   \<and> c_stores (interleave env_ok two_requests) 1 = Some 0
   \<and> c_stores (interleave env_ok two_requests) 2 = Some 1
   \<and> owned_from env_ok (Obj 11) (Some 0) 1 [] (c_log (interleave env_ok two_requests))
   \<and> owned_from env_ok (Func 5) (Some 1) 2 [] (c_log (interleave env_ok two_requests))"
proof -
  have h: "distinct (started two_requests)" "Start 1 (Obj 11) \<in> set two_requests"
    "Start 2 (Func 5) \<in> set two_requests"
    by (simp_all add: two_requests_def)
  have k: "\<forall>h f a H b. factory_edits env_ok h f a H b = H b"
    "\<forall>h k H b. outside_edits env_ok h k H b = H b"
    by (simp_all add: env_ok_def)
  have s1: "c_stores (interleave env_ok two_requests) 1 = Some 0"
    and s2: "c_stores (interleave env_ok two_requests) 2 = Some 1"
    and lg: "c_log (interleave env_ok two_requests) =
       [(1, ClientQuery (Obj 11) select1 Undefined),
        (2, CallFactory (Func 5)), (2, SetClient 1 (Obj 7)),
        (2, ClientQuery (Obj 7) select1 Undefined),
        (1, ClientQuery (Obj 11) select1 Null),
        (2, ClientQuery (Obj 7) select1 Null)]"
    by (simp_all add: two_requests_def interleave_def c_init_def resume_def view_def
        scope_entry_def alloc_def als_enter_def driver_defs read_field_def env_ok_def
        factory_heap_def outside_def)
  from concurrent_scopes_are_isolated [OF k h(1,2)] s1
  have o1: "owned_from env_ok (Obj 11) (Some 0) 1 [] (c_log (interleave env_ok two_requests))"
    by auto
  from concurrent_scopes_are_isolated [OF k h(1,3)] s2
  have o2: "owned_from env_ok (Func 5) (Some 1) 2 [] (c_log (interleave env_ok two_requests))"
    by auto
  show ?thesis using k h s1 s2 lg o1 o2 by blast
qed

text \<open>
  As claim C9 is stated, for all factories, it fails: chain 1 is given the function 4,
  \<^verbatim>\<open>function () { this.factory = g; throw 1 }\<close>, where \<open>g\<close> is the function 5 that chain 2 is
  given; the second query of chain 1 invokes the factory of chain 2 and is sent to the client
  that factory returns.
\<close>

theorem factory_can_hand_a_scope_the_factory_of_another:
  "distinct (started two_factories)
   \<and> Start 1 (Func 4) \<in> set two_factories \<and> Start 2 (Func 5) \<in> set two_factories
   \<and> Func 4 \<noteq> Func 5
   \<and> c_log (interleave env_swap two_factories) =
       [(1, CallFactory (Func 4)), (1, CallFactory (Func 5)), (1, SetClient 0 (Obj 7)),
        (1, ClientQuery (Obj 7) select1 Null)]
   \<and> (1, CallFactory (Func 5)) \<in> set (c_log (interleave env_swap two_factories))"
  by (simp add: two_factories_def interleave_def c_init_def resume_def view_def
      scope_entry_def alloc_def als_enter_def driver_defs read_field_def env_swap_def
      factory_heap_def)

end
